theory Spec2Isabelle
  imports Main "HOL-Library.Word"
begin

section \<open>A sentinel-based circular doubly-linked list (list.h)\<close>

text \<open>
  The container of \<^verbatim>\<open>list.h\<close> owns heap nodes that point at each other, so the model
  keeps an explicit store of nodes. Pointers and \<^verbatim>\<open>size_t\<close> are 64-bit words; the
  null pointer is \<open>0\<close>. A data member \<^verbatim>\<open>x_\<close> of the source is \<open>m_x\<close> here.
\<close>

subsection \<open>Outcomes of a call\<close>

text \<open>
  A call returns a value, or throws a C++ exception (both leave a state behind), or calls
  \<^verbatim>\<open>std::terminate\<close> (an exception leaving a \<^verbatim>\<open>noexcept\<close> function), or
  has undefined behaviour (an access through a pointer that designates no live node, a
  downcast of a node that holds no value).
\<close>

datatype signal = bad_alloc | element_exception | out_of_range | runtime_error

datatype ('r, 's) outcome = Returns 'r 's | Throws signal 's | Terminates | Undefined

subsection \<open>Nodes and the store\<close>

type_synonym addr = "64 word"

text \<open>
  \<^verbatim>\<open>ListNode<T>\<close> has the two links; \<^verbatim>\<open>TNode<T>\<close> adds \<^verbatim>\<open>value_\<close>. A cell of
  the store holds either: \<open>m_value = None\<close> is a plain \<^verbatim>\<open>ListNode<T>\<close>.
\<close>

record 'a ListNode =
  m_prev :: addr
  m_next :: addr
  m_value :: "'a option"

text \<open>
  The store maps the addresses of live nodes to their contents. \<open>offers\<close> is the
  allocator seen from outside: the addresses it will answer the coming requests with
  (\<open>0\<close>, an address in use, or no offer left: the request fails).
\<close>

record 'a memory =
  cells :: "addr \<rightharpoonup> 'a ListNode"
  offers :: "addr list"

text \<open>The element type \<^verbatim>\<open>T\<close>: which values its copy and move constructors throw on.\<close>

record 'a T_class =
  copy_throws :: "'a \<Rightarrow> bool"
  move_throws :: "'a \<Rightarrow> bool"

definition GetNext :: "'a memory \<Rightarrow> addr \<Rightarrow> addr option" where
  "GetNext h p = map_option m_next (cells h p)"

definition GetPrev :: "'a memory \<Rightarrow> addr \<Rightarrow> addr option" where
  "GetPrev h p = map_option m_prev (cells h p)"

definition GetValue :: "'a memory \<Rightarrow> addr \<Rightarrow> 'a option" where
  "GetValue h p = (case cells h p of None \<Rightarrow> None | Some n \<Rightarrow> m_value n)"

definition SetNext :: "'a memory \<Rightarrow> addr \<Rightarrow> addr \<Rightarrow> 'a memory option" where
  "SetNext h p nxt =
     (case cells h p of None \<Rightarrow> None
      | Some n \<Rightarrow> Some (h\<lparr>cells := (cells h)(p \<mapsto> n\<lparr>m_next := nxt\<rparr>)\<rparr>))"

definition SetPrev :: "'a memory \<Rightarrow> addr \<Rightarrow> addr \<Rightarrow> 'a memory option" where
  "SetPrev h p prv =
     (case cells h p of None \<Rightarrow> None
      | Some n \<Rightarrow> Some (h\<lparr>cells := (cells h)(p \<mapsto> n\<lparr>m_prev := prv\<rparr>)\<rparr>))"

text \<open>
  The allocation function in its non-throwing form: the next offer, or null when the
  request fails.
\<close>

definition operator_new :: "'a memory \<Rightarrow> addr \<times> 'a memory" where
  "operator_new h =
     (case offers h of
        [] \<Rightarrow> (0, h)
      | a # rest \<Rightarrow>
          (if a \<noteq> 0 \<and> cells h a = None then a else 0, h\<lparr>offers := rest\<rparr>))"

text \<open>\<^verbatim>\<open>delete p\<close>: nothing for null; undefined when \<open>p\<close> is not a live node.\<close>

definition delete :: "'a memory \<Rightarrow> addr \<Rightarrow> 'a memory option" where
  "delete h p =
     (if p = 0 then Some h
      else case cells h p of None \<Rightarrow> None
           | Some n \<Rightarrow> Some (h\<lparr>cells := (cells h)(p := None)\<rparr>))"

text \<open>\<^verbatim>\<open>new ListNode<T>()\<close>: both links null (the default member initialisers).\<close>

definition new_ListNode :: "'a memory \<Rightarrow> (addr, 'a memory) outcome" where
  "new_ListNode h =
     (case operator_new h of (a, h1) \<Rightarrow>
        if a = 0 then Throws bad_alloc h1
        else Returns a (h1\<lparr>cells := (cells h1)(a \<mapsto> \<lparr>m_prev = 0, m_next = 0, m_value = None\<rparr>)\<rparr>))"

text \<open>\<^verbatim>\<open>new (std::nothrow) ListNode<T>()\<close>: null instead of an exception.\<close>

definition new_nothrow_ListNode :: "'a memory \<Rightarrow> addr \<times> 'a memory" where
  "new_nothrow_ListNode h =
     (case operator_new h of (a, h1) \<Rightarrow>
        if a = 0 then (0, h1)
        else (a, h1\<lparr>cells := (cells h1)(a \<mapsto> \<lparr>m_prev = 0, m_next = 0, m_value = None\<rparr>)\<rparr>))"

text \<open>
  \<^verbatim>\<open>new TNode<T>(element)\<close>, through \<^verbatim>\<open>TNode(const T&)\<close>: storage first, then the
  copy of the element into it; when the copy throws, the new-expression gives the storage
  back and the exception leaves.
\<close>

definition new_TNode :: "'a T_class \<Rightarrow> 'a \<Rightarrow> 'a memory \<Rightarrow> (addr, 'a memory) outcome" where
  "new_TNode T element h =
     (case operator_new h of (a, h1) \<Rightarrow>
        if a = 0 then Throws bad_alloc h1
        else if copy_throws T element then Throws element_exception h1
        else Returns a
          (h1\<lparr>cells := (cells h1)(a \<mapsto> \<lparr>m_prev = 0, m_next = 0, m_value = Some element\<rparr>)\<rparr>))"

text \<open>
  \<^verbatim>\<open>new TNode<T>(std::move(element))\<close>, through \<^verbatim>\<open>TNode(T&&) noexcept\<close>: an
  exception of the element's move constructor cannot leave that constructor.
\<close>

definition new_TNode_move :: "'a T_class \<Rightarrow> 'a \<Rightarrow> 'a memory \<Rightarrow> (addr, 'a memory) outcome" where
  "new_TNode_move T element h =
     (case operator_new h of (a, h1) \<Rightarrow>
        if a = 0 then Throws bad_alloc h1
        else if move_throws T element then Terminates
        else Returns a
          (h1\<lparr>cells := (cells h1)(a \<mapsto> \<lparr>m_prev = 0, m_next = 0, m_value = Some element\<rparr>)\<rparr>))"

subsection \<open>The private primitives\<close>

definition obind :: "'x option \<Rightarrow> ('x \<Rightarrow> 'y option) \<Rightarrow> 'y option" where
  "obind m f = (case m of None \<Rightarrow> None | Some x \<Rightarrow> f x)"

definition LinkAfter :: "'a memory \<Rightarrow> addr \<Rightarrow> addr \<Rightarrow> 'a memory option" where
  "LinkAfter h after emplace =
     obind (SetPrev h emplace after) (\<lambda>h1.
     obind (GetNext h1 after) (\<lambda>n1.
     obind (SetNext h1 emplace n1) (\<lambda>h2.
     obind (GetNext h2 after) (\<lambda>n2.
     obind (SetPrev h2 n2 emplace) (\<lambda>h3.
     SetNext h3 after emplace)))))"

definition UnLink :: "'a memory \<Rightarrow> addr \<Rightarrow> 'a memory option" where
  "UnLink h node =
     (if node \<noteq> 0 then
        obind (GetPrev h node) (\<lambda>p1.
        obind (GetNext h node) (\<lambda>n1.
        obind (SetNext h p1 n1) (\<lambda>h1.
        obind (GetNext h1 node) (\<lambda>n2.
        obind (GetPrev h1 node) (\<lambda>p2.
        obind (SetPrev h1 n2 p2) (\<lambda>h2.
        delete h2 node))))))
      else Some h)"

subsection \<open>Iterator\<close>

datatype Iterator = Iterator (m_iter: addr)

text \<open>\<^verbatim>\<open>Iterator() = default\<close>: the unbound iterator.\<close>

definition Iterator_default :: Iterator where
  "Iterator_default = Iterator 0"

text \<open>\<^verbatim>\<open>operator++()\<close>; the state is the iterator itself.\<close>

definition pre_increment :: "'a memory \<Rightarrow> Iterator \<Rightarrow> (unit, Iterator) outcome" where
  "pre_increment h it =
     (if m_iter it = 0 then Throws out_of_range it
      else case GetNext h (m_iter it) of
             None \<Rightarrow> Undefined
           | Some n \<Rightarrow> Returns () (Iterator n))"

text \<open>\<^verbatim>\<open>operator++(int)\<close> returns the old position.\<close>

definition post_increment :: "'a memory \<Rightarrow> Iterator \<Rightarrow> (Iterator, Iterator) outcome" where
  "post_increment h it =
     (if m_iter it = 0 then Throws out_of_range it
      else case GetNext h (m_iter it) of
             None \<Rightarrow> Undefined
           | Some n \<Rightarrow> Returns it (Iterator n))"

text \<open>\<^verbatim>\<open>operator--()\<close>\<close>

definition pre_decrement :: "'a memory \<Rightarrow> Iterator \<Rightarrow> (unit, Iterator) outcome" where
  "pre_decrement h it =
     (if m_iter it = 0 then Throws out_of_range it
      else case GetPrev h (m_iter it) of
             None \<Rightarrow> Undefined
           | Some p \<Rightarrow> if p = 0 then Throws out_of_range it else Returns () (Iterator p))"

text \<open>\<^verbatim>\<open>operator--(int)\<close>\<close>

definition post_decrement :: "'a memory \<Rightarrow> Iterator \<Rightarrow> (Iterator, Iterator) outcome" where
  "post_decrement h it =
     (if m_iter it = 0 then Throws out_of_range it
      else case GetPrev h (m_iter it) of
             None \<Rightarrow> Undefined
           | Some p \<Rightarrow> Returns it (Iterator p))"

text \<open>
  \<^verbatim>\<open>operator*()\<close>: only null is checked; the \<^verbatim>\<open>static_cast\<close> to
  \<^verbatim>\<open>TNode<T>*\<close> of a node that is no \<^verbatim>\<open>TNode<T>\<close> is undefined.
\<close>

definition deref :: "'a memory \<Rightarrow> Iterator \<Rightarrow> ('a, Iterator) outcome" where
  "deref h it =
     (if m_iter it = 0 then Throws runtime_error it
      else case GetValue h (m_iter it) of
             None \<Rightarrow> Undefined
           | Some v \<Rightarrow> Returns v it)"

text \<open>\<^verbatim>\<open>operator->()\<close>: the same checks; the result designates the value of the node.\<close>

definition arrow :: "'a memory \<Rightarrow> Iterator \<Rightarrow> (addr, Iterator) outcome" where
  "arrow h it =
     (if m_iter it = 0 then Throws runtime_error it
      else case GetValue h (m_iter it) of
             None \<Rightarrow> Undefined
           | Some v \<Rightarrow> Returns (m_iter it) it)"

definition iter_eq :: "Iterator \<Rightarrow> Iterator \<Rightarrow> bool" where
  "iter_eq a b = (m_iter a = m_iter b)"

definition iter_neq :: "Iterator \<Rightarrow> Iterator \<Rightarrow> bool" where
  "iter_neq a b = (m_iter a \<noteq> m_iter b)"

subsection \<open>List\<close>

record List =
  m_end :: addr
  m_size :: "64 word"

text \<open>
  A method runs on the object and the store: its state is the pair of both. The
  constructors return the new object.
\<close>

definition self_link :: "'a memory \<Rightarrow> addr \<Rightarrow> 'a memory option" where
  "self_link h e = obind (SetNext h e e) (\<lambda>h1. SetPrev h1 e e)"

text \<open>\<^verbatim>\<open>List()\<close>\<close>

definition List_ctor :: "'a memory \<Rightarrow> (List, 'a memory) outcome" where
  "List_ctor h =
     (case new_ListNode h of
        Returns e h1 \<Rightarrow>
          (case self_link h1 e of
             None \<Rightarrow> Undefined
           | Some h2 \<Rightarrow> Returns \<lparr>m_end = e, m_size = 0\<rparr> h2)
      | Throws x h1 \<Rightarrow> Throws x h1
      | Terminates \<Rightarrow> Terminates
      | Undefined \<Rightarrow> Undefined)"

definition IsEmpty :: "List \<Rightarrow> bool" where
  "IsEmpty l = (m_size l = 0)"

definition Size :: "List \<Rightarrow> 64 word" where
  "Size l = m_size l"

text \<open>
  The body shared by the four insertions: \<open>fresh\<close> is the new-expression,
  \<open>anchor\<close> reads the node to link after. In the handler \<^verbatim>\<open>new_node\<close> is still
  null (the new-expression threw before the assignment), so \<^verbatim>\<open>delete new_node\<close>
  deletes null.
\<close>

definition push ::
  "('a memory \<Rightarrow> (addr, 'a memory) outcome) \<Rightarrow> ('a memory \<Rightarrow> List \<Rightarrow> addr option) \<Rightarrow>
   List \<times> 'a memory \<Rightarrow> (unit, List \<times> 'a memory) outcome" where
  "push fresh anchor s =
     (case s of (l, h) \<Rightarrow>
       (case fresh h of
          Returns new_node h1 \<Rightarrow>
            (case obind (anchor h1 l) (\<lambda>after. LinkAfter h1 after new_node) of
               None \<Rightarrow> Undefined
             | Some h2 \<Rightarrow> Returns () (l\<lparr>m_size := m_size l + 1\<rparr>, h2))
        | Throws x h1 \<Rightarrow>
            (case delete h1 0 of
               None \<Rightarrow> Undefined
             | Some h2 \<Rightarrow> Throws x (l, h2))
        | Terminates \<Rightarrow> Terminates
        | Undefined \<Rightarrow> Undefined))"

text \<open>\<^verbatim>\<open>PushBack(const T&)\<close> links after \<^verbatim>\<open>end_->GetPrev()\<close>.\<close>

definition PushBack :: "'a T_class \<Rightarrow> 'a \<Rightarrow> List \<times> 'a memory \<Rightarrow> (unit, List \<times> 'a memory) outcome" where
  "PushBack T element = push (new_TNode T element) (\<lambda>h l. GetPrev h (m_end l))"

text \<open>\<^verbatim>\<open>PushBack(T&&)\<close>\<close>

definition PushBack_move :: "'a T_class \<Rightarrow> 'a \<Rightarrow> List \<times> 'a memory \<Rightarrow> (unit, List \<times> 'a memory) outcome" where
  "PushBack_move T element = push (new_TNode_move T element) (\<lambda>h l. GetPrev h (m_end l))"

text \<open>\<^verbatim>\<open>PushFront(const T&)\<close> links after \<^verbatim>\<open>end_\<close>.\<close>

definition PushFront :: "'a T_class \<Rightarrow> 'a \<Rightarrow> List \<times> 'a memory \<Rightarrow> (unit, List \<times> 'a memory) outcome" where
  "PushFront T element = push (new_TNode T element) (\<lambda>h l. Some (m_end l))"

text \<open>\<^verbatim>\<open>PushFront(T&&)\<close>\<close>

definition PushFront_move :: "'a T_class \<Rightarrow> 'a \<Rightarrow> List \<times> 'a memory \<Rightarrow> (unit, List \<times> 'a memory) outcome" where
  "PushFront_move T element = push (new_TNode_move T element) (\<lambda>h l. Some (m_end l))"

text \<open>\<^verbatim>\<open>Front()\<close> and \<^verbatim>\<open>Back()\<close>; \<open>None\<close> is undefined behaviour.\<close>

definition Front :: "'a memory \<Rightarrow> List \<Rightarrow> 'a option" where
  "Front h l = obind (GetNext h (m_end l)) (GetValue h)"

definition Back :: "'a memory \<Rightarrow> List \<Rightarrow> 'a option" where
  "Back h l = obind (GetPrev h (m_end l)) (GetValue h)"

definition PopBack :: "List \<times> 'a memory \<Rightarrow> (unit, List \<times> 'a memory) outcome" where
  "PopBack s =
     (case s of (l, h) \<Rightarrow>
       (case obind (GetPrev h (m_end l)) (UnLink h) of
          None \<Rightarrow> Undefined
        | Some h1 \<Rightarrow> Returns () (l\<lparr>m_size := m_size l - 1\<rparr>, h1)))"

definition PopFront :: "List \<times> 'a memory \<Rightarrow> (unit, List \<times> 'a memory) outcome" where
  "PopFront s =
     (case s of (l, h) \<Rightarrow>
       (case obind (GetNext h (m_end l)) (UnLink h) of
          None \<Rightarrow> Undefined
        | Some h1 \<Rightarrow> Returns () (l\<lparr>m_size := m_size l - 1\<rparr>, h1)))"

definition Erase :: "Iterator \<Rightarrow> List \<times> 'a memory \<Rightarrow> (unit, List \<times> 'a memory) outcome" where
  "Erase place s =
     (case s of (l, h) \<Rightarrow>
       (let to_erase = m_iter place in
        if to_erase \<noteq> m_end l then
          (case UnLink h to_erase of
             None \<Rightarrow> Undefined
           | Some h1 \<Rightarrow> Returns () (l\<lparr>m_size := m_size l - 1\<rparr>, h1))
        else Returns () (l, h)))"

text \<open>\<^verbatim>\<open>Begin()\<close> reads the sentinel; \<open>None\<close> is undefined behaviour.\<close>

definition Begin :: "'a memory \<Rightarrow> List \<Rightarrow> Iterator option" where
  "Begin h l = map_option Iterator (GetNext h (m_end l))"

definition End :: "List \<Rightarrow> Iterator" where
  "End l = Iterator (m_end l)"

text \<open>\<^verbatim>\<open>while (!IsEmpty()) PopFront();\<close> and the same with \<^verbatim>\<open>PopBack()\<close>\<close>

function pop_front_all :: "List \<times> 'a memory \<Rightarrow> (unit, List \<times> 'a memory) outcome" where
  "pop_front_all s =
     (if \<not> IsEmpty (fst s) then
        (case PopFront s of
           Returns u s1 \<Rightarrow> pop_front_all s1
         | Throws x s1 \<Rightarrow> Throws x s1
         | Terminates \<Rightarrow> Terminates
         | Undefined \<Rightarrow> Undefined)
      else Returns () s)"
  by pat_completeness auto
termination
proof (relation "measure (\<lambda>s. unat (m_size (fst s)))")
  show "wf (measure (\<lambda>s. unat (m_size (fst s))))" by simp
next
  fix s :: "List \<times> 'a memory" and u s1
  assume "\<not> IsEmpty (fst s)" and "PopFront s = Returns u s1"
  then show "(s1, s) \<in> measure (\<lambda>s. unat (m_size (fst s)))"
    by (cases s) (auto simp: PopFront_def IsEmpty_def unat_minus_one unat_gt_0
        split: option.splits)
qed

function pop_back_all :: "List \<times> 'a memory \<Rightarrow> (unit, List \<times> 'a memory) outcome" where
  "pop_back_all s =
     (if \<not> IsEmpty (fst s) then
        (case PopBack s of
           Returns u s1 \<Rightarrow> pop_back_all s1
         | Throws x s1 \<Rightarrow> Throws x s1
         | Terminates \<Rightarrow> Terminates
         | Undefined \<Rightarrow> Undefined)
      else Returns () s)"
  by pat_completeness auto
termination
proof (relation "measure (\<lambda>s. unat (m_size (fst s)))")
  show "wf (measure (\<lambda>s. unat (m_size (fst s))))" by simp
next
  fix s :: "List \<times> 'a memory" and u s1
  assume "\<not> IsEmpty (fst s)" and "PopBack s = Returns u s1"
  then show "(s1, s) \<in> measure (\<lambda>s. unat (m_size (fst s)))"
    by (cases s) (auto simp: PopBack_def IsEmpty_def unat_minus_one unat_gt_0
        split: option.splits)
qed

text \<open>\<^verbatim>\<open>~List()\<close>: the object is gone afterwards, the store remains.\<close>

definition List_dtor :: "List \<times> 'a memory \<Rightarrow> (unit, 'a memory) outcome" where
  "List_dtor s =
     (case pop_front_all s of
        Returns u s1 \<Rightarrow>
          (case delete (snd s1) (m_end (fst s1)) of
             None \<Rightarrow> Undefined
           | Some h2 \<Rightarrow> Returns () h2)
      | Throws x s1 \<Rightarrow> Throws x (snd s1)
      | Terminates \<Rightarrow> Terminates
      | Undefined \<Rightarrow> Undefined)"

text \<open>
  The loop of \<^verbatim>\<open>List(const List& other)\<close>: \<open>iter\<close> walks the ring of \<open>other\<close>
  up to its sentinel \<open>other_end\<close>. It need not end (on a ring that never comes back
  to the sentinel), so the result is an option and \<open>None\<close> is a loop that runs forever.
\<close>

partial_function (option) copy_loop ::
  "'a T_class \<Rightarrow> addr \<Rightarrow> addr \<Rightarrow> List \<times> 'a memory \<Rightarrow> (unit, List \<times> 'a memory) outcome option" where
  "copy_loop T other_end iter s =
     (if iter \<noteq> other_end then
        (case GetValue (snd s) iter of
           None \<Rightarrow> Some Undefined
         | Some v \<Rightarrow>
            (case PushBack T v s of
               Returns u s1 \<Rightarrow>
                 (case GetNext (snd s1) iter of
                    None \<Rightarrow> Some Undefined
                  | Some n \<Rightarrow> copy_loop T other_end n s1)
             | Throws x s1 \<Rightarrow> Some (Throws x s1)
             | Terminates \<Rightarrow> Some Terminates
             | Undefined \<Rightarrow> Some Undefined))
      else Some (Returns () s))"

declare copy_loop.simps [code]

text \<open>
  \<^verbatim>\<open>List(const List& other)\<close>. An exception of \<^verbatim>\<open>PushBack\<close> leaves the
  constructor; the nodes built so far stay in the store.
\<close>

definition List_copy_ctor ::
  "'a T_class \<Rightarrow> List \<Rightarrow> 'a memory \<Rightarrow> (List, 'a memory) outcome option" where
  "List_copy_ctor T other h =
     (case List_ctor h of
        Returns this h1 \<Rightarrow>
          (case GetNext h1 (m_end other) of
             None \<Rightarrow> Some Undefined
           | Some iter \<Rightarrow>
              (case copy_loop T (m_end other) iter (this, h1) of
                 None \<Rightarrow> None
               | Some (Returns u s1) \<Rightarrow> Some (Returns (fst s1) (snd s1))
               | Some (Throws x s1) \<Rightarrow> Some (Throws x (snd s1))
               | Some Terminates \<Rightarrow> Some Terminates
               | Some Undefined \<Rightarrow> Some Undefined))
      | Throws x h1 \<Rightarrow> Some (Throws x h1)
      | Terminates \<Rightarrow> Some Terminates
      | Undefined \<Rightarrow> Some Undefined)"

text \<open>
  \<^verbatim>\<open>List(List&& other) noexcept\<close>: the state is \<open>other\<close> and the store, the result
  the new object. The handler catches the failed allocation.
\<close>

definition List_move_ctor :: "List \<times> 'a memory \<Rightarrow> (List, List \<times> 'a memory) outcome" where
  "List_move_ctor s =
     (case s of (other, h) \<Rightarrow>
       (let this = \<lparr>m_end = m_end other, m_size = m_size other\<rparr> in
        case new_ListNode h of
          Returns e h1 \<Rightarrow>
            (case self_link h1 e of
               None \<Rightarrow> Undefined
             | Some h2 \<Rightarrow> Returns this (other\<lparr>m_end := e, m_size := 0\<rparr>, h2))
        | Throws x h1 \<Rightarrow> Returns this (other\<lparr>m_end := 0, m_size := 0\<rparr>, h1)
        | Terminates \<Rightarrow> Terminates
        | Undefined \<Rightarrow> Undefined))"

text \<open>
  The loop of the copy assignment,
  \<^verbatim>\<open>for (auto it = other.Begin(); it != other.End(); ++it) PushBack(*it);\<close>
\<close>

partial_function (option) assign_loop ::
  "'a T_class \<Rightarrow> List \<Rightarrow> Iterator \<Rightarrow> List \<times> 'a memory \<Rightarrow> (unit, List \<times> 'a memory) outcome option" where
  "assign_loop T other it s =
     (if iter_neq it (End other) then
        (case deref (snd s) it of
           Returns v it1 \<Rightarrow>
             (case PushBack T v s of
                Returns u s1 \<Rightarrow>
                  (case pre_increment (snd s1) it1 of
                     Returns u2 it2 \<Rightarrow> assign_loop T other it2 s1
                   | Throws x it2 \<Rightarrow> Some (Throws x s1)
                   | Terminates \<Rightarrow> Some Terminates
                   | Undefined \<Rightarrow> Some Undefined)
              | Throws x s1 \<Rightarrow> Some (Throws x s1)
              | Terminates \<Rightarrow> Some Terminates
              | Undefined \<Rightarrow> Some Undefined)
         | Throws x it1 \<Rightarrow> Some (Throws x s)
         | Terminates \<Rightarrow> Some Terminates
         | Undefined \<Rightarrow> Some Undefined)
      else Some (Returns () s))"

declare assign_loop.simps [code]

text \<open>
  \<^verbatim>\<open>operator=(const List& other)\<close>. \<open>this_p\<close> and \<open>other_p\<close> are the addresses of
  the two objects, compared by \<^verbatim>\<open>this != &other\<close>; the state is the store and both
  objects, \<open>this\<close> first (when the addresses are equal they are one object and nothing
  happens to it).
\<close>

definition copy_assign ::
  "'a T_class \<Rightarrow> addr \<Rightarrow> addr \<Rightarrow> (List \<times> List) \<times> 'a memory \<Rightarrow>
   (unit, (List \<times> List) \<times> 'a memory) outcome option" where
  "copy_assign T this_p other_p s =
     (case s of ((this, other), h) \<Rightarrow>
       if this_p \<noteq> other_p then
         (case pop_back_all (this, h) of
            Returns u s1 \<Rightarrow>
              (case Begin (snd s1) other of
                 None \<Rightarrow> Some Undefined
               | Some it \<Rightarrow>
                  (case assign_loop T other it s1 of
                     None \<Rightarrow> None
                   | Some (Returns u2 s2) \<Rightarrow> Some (Returns () ((fst s2, other), snd s2))
                   | Some (Throws x s2) \<Rightarrow> Some (Throws x ((fst s2, other), snd s2))
                   | Some Terminates \<Rightarrow> Some Terminates
                   | Some Undefined \<Rightarrow> Some Undefined))
          | Throws x s1 \<Rightarrow> Some (Throws x ((fst s1, other), snd s1))
          | Terminates \<Rightarrow> Some Terminates
          | Undefined \<Rightarrow> Some Undefined)
       else Some (Returns () s))"

text \<open>\<^verbatim>\<open>operator=(List&& other) noexcept\<close>, with the same convention.\<close>

definition move_assign ::
  "addr \<Rightarrow> addr \<Rightarrow> (List \<times> List) \<times> 'a memory \<Rightarrow> (unit, (List \<times> List) \<times> 'a memory) outcome" where
  "move_assign this_p other_p s =
     (case s of ((this, other), h) \<Rightarrow>
       if this_p \<noteq> other_p then
         (case pop_back_all (this, h) of
            Returns u s1 \<Rightarrow>
              (case delete (snd s1) (m_end (fst s1)) of
                 None \<Rightarrow> Undefined
               | Some h2 \<Rightarrow>
                  (let this1 = (fst s1)\<lparr>m_end := m_end other, m_size := m_size other\<rparr> in
                   case new_nothrow_ListNode h2 of (e, h3) \<Rightarrow>
                     if e \<noteq> 0 then
                       (case self_link h3 e of
                          None \<Rightarrow> Undefined
                        | Some h4 \<Rightarrow>
                            Returns () ((this1, other\<lparr>m_end := e, m_size := 0\<rparr>), h4))
                     else Returns () ((this1, other\<lparr>m_end := e\<rparr>), h3)))
          | Throws x s1 \<Rightarrow> Terminates
          | Terminates \<Rightarrow> Terminates
          | Undefined \<Rightarrow> Undefined)
       else Returns () s)"

subsection \<open>Reading a list from outside\<close>

text \<open>
  The traversal a caller writes,
  \<^verbatim>\<open>for (auto it = l.Begin(); it != l.End(); ++it) out.push_back(*it);\<close>
  with \<open>None\<close> for a loop that runs forever.
\<close>

partial_function (option) collect ::
  "'a memory \<Rightarrow> Iterator \<Rightarrow> Iterator \<Rightarrow> 'a list \<Rightarrow> ('a list, Iterator) outcome option" where
  "collect h stop it out =
     (if iter_neq it stop then
        (case deref h it of
           Returns v it1 \<Rightarrow>
             (case pre_increment h it1 of
                Returns u it2 \<Rightarrow> collect h stop it2 (out @ [v])
              | Throws x it2 \<Rightarrow> Some (Throws x it2)
              | Terminates \<Rightarrow> Some Terminates
              | Undefined \<Rightarrow> Some Undefined)
         | Throws x it1 \<Rightarrow> Some (Throws x it1)
         | Terminates \<Rightarrow> Some Terminates
         | Undefined \<Rightarrow> Some Undefined)
      else Some (Returns out it))"

declare collect.simps [code]

definition traverse :: "'a memory \<Rightarrow> List \<Rightarrow> ('a list, Iterator) outcome option" where
  "traverse h l =
     (case Begin h l of
        None \<Rightarrow> Some Undefined
      | Some it \<Rightarrow> collect h (End l) it [])"

text \<open>A caller's \<^verbatim>\<open>for (i = 0; i < k; ++i) ++it;\<close>\<close>

fun advance :: "'a memory \<Rightarrow> nat \<Rightarrow> Iterator \<Rightarrow> (unit, Iterator) outcome" where
  "advance h 0 it = Returns () it"
| "advance h (Suc k) it =
     (case pre_increment h it of
        Returns u it1 \<Rightarrow> advance h k it1
      | Throws x it1 \<Rightarrow> Throws x it1
      | Terminates \<Rightarrow> Terminates
      | Undefined \<Rightarrow> Undefined)"

text \<open>
  Calls a caller can make on one list: the insertions and the two removals at the ends,
  and \<^verbatim>\<open>Erase\<close> at the iterator that \<open>k\<close> increments of \<^verbatim>\<open>Begin()\<close> reach.
\<close>

datatype 'a op =
  OpPushBack 'a | OpPushBackMove 'a | OpPushFront 'a | OpPushFrontMove 'a | OpPopBack | OpPopFront

datatype 'a mutation = Op "'a op" | EraseAt nat

fun apply_op :: "'a T_class \<Rightarrow> 'a op \<Rightarrow> List \<times> 'a memory \<Rightarrow> (unit, List \<times> 'a memory) outcome" where
  "apply_op T (OpPushBack x) s = PushBack T x s"
| "apply_op T (OpPushBackMove x) s = PushBack_move T x s"
| "apply_op T (OpPushFront x) s = PushFront T x s"
| "apply_op T (OpPushFrontMove x) s = PushFront_move T x s"
| "apply_op T OpPopBack s = PopBack s"
| "apply_op T OpPopFront s = PopFront s"

fun apply_mutation ::
  "'a T_class \<Rightarrow> 'a mutation \<Rightarrow> List \<times> 'a memory \<Rightarrow> (unit, List \<times> 'a memory) outcome" where
  "apply_mutation T (Op c) s = apply_op T c s"
| "apply_mutation T (EraseAt k) s =
     (case Begin (snd s) (fst s) of
        None \<Rightarrow> Undefined
      | Some b \<Rightarrow>
         (case advance (snd s) k b of
            Returns u it \<Rightarrow> Erase it s
          | Throws x it \<Rightarrow> Throws x s
          | Terminates \<Rightarrow> Terminates
          | Undefined \<Rightarrow> Undefined))"

text \<open>Calls in sequence; an exception ends the sequence.\<close>

fun run :: "('c \<Rightarrow> 's \<Rightarrow> (unit, 's) outcome) \<Rightarrow> 'c list \<Rightarrow> 's \<Rightarrow> (unit, 's) outcome" where
  "run f [] s = Returns () s"
| "run f (c # cs) s =
     (case f c s of
        Returns u s1 \<Rightarrow> run f cs s1
      | Throws x s1 \<Rightarrow> Throws x s1
      | Terminates \<Rightarrow> Terminates
      | Undefined \<Rightarrow> Undefined)"

subsection \<open>The ring\<close>

text \<open>
  \<open>links h p as q\<close>: following \<^verbatim>\<open>next_\<close> from \<open>p\<close> visits exactly \<open>as\<close> and then
  \<open>q\<close>, and every \<^verbatim>\<open>prev_\<close> on the way points back.
\<close>

fun links :: "'a memory \<Rightarrow> addr \<Rightarrow> addr list \<Rightarrow> addr \<Rightarrow> bool" where
  "links h p [] q = (GetNext h p = Some q \<and> GetPrev h q = Some p)"
| "links h p (a # as) q = (GetNext h p = Some a \<and> GetPrev h a = Some p \<and> links h a as q)"

text \<open>
  \<open>ring h e as xs\<close>: the sentinel \<open>e\<close>, a plain node, and the typed nodes \<open>as\<close>, all
  different and none null, form a ring in this order, and the typed nodes hold \<open>xs\<close>.
\<close>

definition ring :: "'a memory \<Rightarrow> addr \<Rightarrow> addr list \<Rightarrow> 'a list \<Rightarrow> bool" where
  "ring h e as xs =
     (e \<noteq> 0 \<and> 0 \<notin> set as \<and> distinct (e # as) \<and> links h e as e \<and>
      GetValue h e = None \<and> map (GetValue h) as = map Some xs)"

text \<open>The invariant of a list object: its ring, and \<^verbatim>\<open>size_\<close> counting the typed nodes.\<close>

definition well_formed :: "'a memory \<Rightarrow> List \<Rightarrow> addr list \<Rightarrow> 'a list \<Rightarrow> bool" where
  "well_formed h l as xs = (ring h (m_end l) as xs \<and> unat (m_size l) = length as)"

text \<open>Both neighbours of \<open>n\<close> point back at \<open>n\<close>.\<close>

definition linked_back :: "'a memory \<Rightarrow> addr \<Rightarrow> bool" where
  "linked_back h n =
     (obind (GetNext h n) (GetPrev h) = Some n \<and> obind (GetPrev h n) (GetNext h) = Some n)"

subsection \<open>What the calls mean for the sequence of elements\<close>

text \<open>
  The sequence a list holds after a call, from the one before: \<^verbatim>\<open>PushBack\<close> appends,
  \<^verbatim>\<open>PushFront\<close> prepends, \<^verbatim>\<open>PopBack\<close> and \<^verbatim>\<open>PopFront\<close> remove the last and
  the first element and have no meaning on the empty sequence (\<open>None\<close>).
\<close>

fun model_op :: "'a op \<Rightarrow> 'a list \<Rightarrow> 'a list option" where
  "model_op (OpPushBack x) xs = Some (xs @ [x])"
| "model_op (OpPushBackMove x) xs = Some (xs @ [x])"
| "model_op (OpPushFront x) xs = Some (x # xs)"
| "model_op (OpPushFrontMove x) xs = Some (x # xs)"
| "model_op OpPopBack xs = (if xs = [] then None else Some (butlast xs))"
| "model_op OpPopFront xs = (if xs = [] then None else Some (tl xs))"

text \<open>
  \<open>k\<close> increments of \<^verbatim>\<open>Begin()\<close> go round the ring of the elements and the
  sentinel; erasing there removes that element, or nothing at the sentinel.
\<close>

fun model_mutation :: "'a mutation \<Rightarrow> 'a list \<Rightarrow> 'a list option" where
  "model_mutation (Op c) xs = model_op c xs"
| "model_mutation (EraseAt k) xs =
     (let j = k mod (length xs + 1) in Some (take j xs @ drop (Suc j) xs))"

fun model_run :: "('c \<Rightarrow> 'a list \<Rightarrow> 'a list option) \<Rightarrow> 'c list \<Rightarrow> 'a list \<Rightarrow> 'a list option" where
  "model_run f [] xs = Some xs"
| "model_run f (c # cs) xs = (case f c xs of None \<Rightarrow> None | Some ys \<Rightarrow> model_run f cs ys)"

fun is_push :: "'a op \<Rightarrow> bool" where
  "is_push OpPopBack = False"
| "is_push OpPopFront = False"
| "is_push c = True"

definition pushes :: "'a op list \<Rightarrow> nat" where
  "pushes cs = length (filter is_push cs)"

definition pops :: "'a op list \<Rightarrow> nat" where
  "pops cs = length (filter (\<lambda>c. \<not> is_push c) cs)"

subsection \<open>An allocator that serves, constructors that do not throw\<close>

text \<open>
  The coming requests are served when the addresses on offer are non-null, different
  from each other and not in use.
\<close>

definition good_offers :: "'a memory \<Rightarrow> bool" where
  "good_offers h =
     (distinct (offers h) \<and> 0 \<notin> set (offers h) \<and> list_all (\<lambda>a. cells h a = None) (offers h))"

text \<open>Whether the element's constructor that a call uses throws on the call's argument.\<close>

fun throws_on :: "'a T_class \<Rightarrow> 'a op \<Rightarrow> bool" where
  "throws_on T (OpPushBack x) = copy_throws T x"
| "throws_on T (OpPushBackMove x) = move_throws T x"
| "throws_on T (OpPushFront x) = copy_throws T x"
| "throws_on T (OpPushFrontMove x) = move_throws T x"
| "throws_on T OpPopBack = False"
| "throws_on T OpPopFront = False"

subsection \<open>Concrete stores\<close>

text \<open>A store without nodes whose allocator will hand out the addresses \<open>os\<close>.\<close>

definition empty_store :: "addr list \<Rightarrow> int memory" where
  "empty_store os = \<lparr>cells = Map.empty, offers = os\<rparr>"

text \<open>An element type that never throws, and one that throws on negative values.\<close>

definition plain_T :: "int T_class" where
  "plain_T = \<lparr>copy_throws = (\<lambda>x. False), move_throws = (\<lambda>x. False)\<rparr>"

definition throwing_T :: "int T_class" where
  "throwing_T = \<lparr>copy_throws = (\<lambda>x. x < 0), move_throws = (\<lambda>x. x < 0)\<rparr>"

text \<open>The empty list that \<^verbatim>\<open>List()\<close> builds in \<open>empty_store [1, 2, 3, 4]\<close>.\<close>

definition example_empty :: "List \<times> int memory" where
  "example_empty =
     (\<lparr>m_end = 1, m_size = 0\<rparr>,
      \<lparr>cells = [1 \<mapsto> \<lparr>m_prev = 1, m_next = 1, m_value = None\<rparr>], offers = [2, 3, 4]\<rparr>)"

text \<open>
  The list that \<^verbatim>\<open>PushBack(1)\<close>, \<^verbatim>\<open>PushBack(2)\<close>, \<^verbatim>\<open>PushFront(0)\<close> make of it.
\<close>

definition example_012 :: "List \<times> int memory" where
  "example_012 =
     (\<lparr>m_end = 1, m_size = 3\<rparr>,
      \<lparr>cells = [1 \<mapsto> \<lparr>m_prev = 3, m_next = 4, m_value = None\<rparr>,
                4 \<mapsto> \<lparr>m_prev = 1, m_next = 2, m_value = Some 0\<rparr>,
                2 \<mapsto> \<lparr>m_prev = 4, m_next = 3, m_value = Some 1\<rparr>,
                3 \<mapsto> \<lparr>m_prev = 2, m_next = 1, m_value = Some 2\<rparr>],
       offers = []\<rparr>)"

text \<open>
  Two lists in a store whose allocator has nothing left: an empty one (sentinel \<open>1\<close>)
  and one that holds \<open>5\<close> (sentinel \<open>2\<close>, node \<open>3\<close>).
\<close>

definition example_two :: "(List \<times> List) \<times> int memory" where
  "example_two =
     ((\<lparr>m_end = 1, m_size = 0\<rparr>, \<lparr>m_end = 2, m_size = 1\<rparr>),
      \<lparr>cells = [1 \<mapsto> \<lparr>m_prev = 1, m_next = 1, m_value = None\<rparr>,
                2 \<mapsto> \<lparr>m_prev = 3, m_next = 3, m_value = None\<rparr>,
                3 \<mapsto> \<lparr>m_prev = 2, m_next = 2, m_value = Some 5\<rparr>],
       offers = []\<rparr>)"

text \<open>
  The list \<open>[1, 2]\<close> (sentinel \<open>1\<close>), its copy (sentinel \<open>4\<close>) as
  \<^verbatim>\<open>List(const List&)\<close> builds it, and the copy after \<^verbatim>\<open>PushBack(3)\<close>.
\<close>

definition example_A :: "List \<times> int memory" where
  "example_A =
     (\<lparr>m_end = 1, m_size = 2\<rparr>,
      \<lparr>cells = [1 \<mapsto> \<lparr>m_prev = 3, m_next = 2, m_value = None\<rparr>,
                2 \<mapsto> \<lparr>m_prev = 1, m_next = 3, m_value = Some 1\<rparr>,
                3 \<mapsto> \<lparr>m_prev = 2, m_next = 1, m_value = Some 2\<rparr>],
       offers = [4, 5, 6, 7]\<rparr>)"

definition example_B :: "List \<times> int memory" where
  "example_B =
     (\<lparr>m_end = 4, m_size = 2\<rparr>,
      \<lparr>cells = [1 \<mapsto> \<lparr>m_prev = 3, m_next = 2, m_value = None\<rparr>,
                2 \<mapsto> \<lparr>m_prev = 1, m_next = 3, m_value = Some 1\<rparr>,
                3 \<mapsto> \<lparr>m_prev = 2, m_next = 1, m_value = Some 2\<rparr>,
                4 \<mapsto> \<lparr>m_prev = 6, m_next = 5, m_value = None\<rparr>,
                5 \<mapsto> \<lparr>m_prev = 4, m_next = 6, m_value = Some 1\<rparr>,
                6 \<mapsto> \<lparr>m_prev = 5, m_next = 4, m_value = Some 2\<rparr>],
       offers = [7]\<rparr>)"

definition example_B3 :: "List \<times> int memory" where
  "example_B3 =
     (\<lparr>m_end = 4, m_size = 3\<rparr>,
      \<lparr>cells = [1 \<mapsto> \<lparr>m_prev = 3, m_next = 2, m_value = None\<rparr>,
                2 \<mapsto> \<lparr>m_prev = 1, m_next = 3, m_value = Some 1\<rparr>,
                3 \<mapsto> \<lparr>m_prev = 2, m_next = 1, m_value = Some 2\<rparr>,
                4 \<mapsto> \<lparr>m_prev = 7, m_next = 5, m_value = None\<rparr>,
                5 \<mapsto> \<lparr>m_prev = 4, m_next = 6, m_value = Some 1\<rparr>,
                6 \<mapsto> \<lparr>m_prev = 5, m_next = 7, m_value = Some 2\<rparr>,
                7 \<mapsto> \<lparr>m_prev = 6, m_next = 4, m_value = Some 3\<rparr>],
       offers = []\<rparr>)"

text \<open>
  The list \<open>[0, 1, 2]\<close> above after \<^verbatim>\<open>PopFront()\<close> and \<^verbatim>\<open>PopBack()\<close>, and the list
  \<open>[1]\<close> in a store whose allocator had one node to give.
\<close>

definition example_1 :: "List \<times> int memory" where
  "example_1 =
     (\<lparr>m_end = 1, m_size = 1\<rparr>,
      \<lparr>cells = [1 \<mapsto> \<lparr>m_prev = 2, m_next = 2, m_value = None\<rparr>,
                2 \<mapsto> \<lparr>m_prev = 1, m_next = 1, m_value = Some 1\<rparr>],
       offers = []\<rparr>)"

section \<open>Verification\<close>

subsection \<open>What the primitives do to the store\<close>

lemma GetNext_upd [simp]:
  "GetNext (h\<lparr>cells := (cells h)(p \<mapsto> nd)\<rparr>) = (GetNext h)(p \<mapsto> m_next nd)"
  by (auto simp: GetNext_def fun_eq_iff)

lemma GetPrev_upd [simp]:
  "GetPrev (h\<lparr>cells := (cells h)(p \<mapsto> nd)\<rparr>) = (GetPrev h)(p \<mapsto> m_prev nd)"
  by (auto simp: GetPrev_def fun_eq_iff)

lemma GetValue_upd [simp]:
  "GetValue (h\<lparr>cells := (cells h)(p \<mapsto> nd)\<rparr>) = (GetValue h)(p := m_value nd)"
  by (auto simp: GetValue_def fun_eq_iff)

lemma SetNext_effect:
  assumes "cells h p \<noteq> None"
  shows "\<exists>h'. SetNext h p v = Some h' \<and> GetNext h' = (GetNext h)(p \<mapsto> v) \<and>
           GetPrev h' = GetPrev h \<and> GetValue h' = GetValue h \<and> offers h' = offers h \<and>
           (\<forall>x. x \<noteq> p \<longrightarrow> cells h' x = cells h x) \<and> (\<forall>x. cells h' x = None \<longleftrightarrow> cells h x = None)"
  using assms by (auto simp: SetNext_def fun_eq_iff GetPrev_def GetValue_def)

lemma SetPrev_effect:
  assumes "cells h p \<noteq> None"
  shows "\<exists>h'. SetPrev h p v = Some h' \<and> GetPrev h' = (GetPrev h)(p \<mapsto> v) \<and>
           GetNext h' = GetNext h \<and> GetValue h' = GetValue h \<and> offers h' = offers h \<and>
           (\<forall>x. x \<noteq> p \<longrightarrow> cells h' x = cells h x) \<and> (\<forall>x. cells h' x = None \<longleftrightarrow> cells h x = None)"
  using assms by (auto simp: SetPrev_def fun_eq_iff GetNext_def GetValue_def)

lemma LinkAfter_effect:
  assumes u: "GetNext h u = Some v" and n: "cells h n \<noteq> None" and v: "cells h v \<noteq> None"
    and nu: "n \<noteq> u" and nv: "n \<noteq> v"
  shows "\<exists>h'. LinkAfter h u n = Some h' \<and>
           GetNext h' = (GetNext h)(n \<mapsto> v, u \<mapsto> n) \<and>
           GetPrev h' = (GetPrev h)(n \<mapsto> u, v \<mapsto> n) \<and>
           GetValue h' = GetValue h \<and> offers h' = offers h \<and>
           (\<forall>x. x \<notin> {u, v, n} \<longrightarrow> cells h' x = cells h x)"
proof -
  from u have ul: "cells h u \<noteq> None" by (auto simp: GetNext_def)
  from SetPrev_effect [OF n, of u] obtain h1 where
    h1: "SetPrev h n u = Some h1" "GetPrev h1 = (GetPrev h)(n \<mapsto> u)" "GetNext h1 = GetNext h"
      "GetValue h1 = GetValue h" "offers h1 = offers h"
      "\<forall>x. x \<noteq> n \<longrightarrow> cells h1 x = cells h x" "\<forall>x. cells h1 x = None \<longleftrightarrow> cells h x = None"
    by blast
  have n1: "cells h1 n \<noteq> None" using n h1(7) by simp
  from SetNext_effect [OF n1, of v] obtain h2 where
    h2: "SetNext h1 n v = Some h2" "GetNext h2 = (GetNext h1)(n \<mapsto> v)" "GetPrev h2 = GetPrev h1"
      "GetValue h2 = GetValue h1" "offers h2 = offers h1"
      "\<forall>x. x \<noteq> n \<longrightarrow> cells h2 x = cells h1 x" "\<forall>x. cells h2 x = None \<longleftrightarrow> cells h1 x = None"
    by blast
  have v2: "cells h2 v \<noteq> None" using v h1(7) h2(7) by simp
  from SetPrev_effect [OF v2, of n] obtain h3 where
    h3: "SetPrev h2 v n = Some h3" "GetPrev h3 = (GetPrev h2)(v \<mapsto> n)" "GetNext h3 = GetNext h2"
      "GetValue h3 = GetValue h2" "offers h3 = offers h2"
      "\<forall>x. x \<noteq> v \<longrightarrow> cells h3 x = cells h2 x" "\<forall>x. cells h3 x = None \<longleftrightarrow> cells h2 x = None"
    by blast
  have u3: "cells h3 u \<noteq> None" using ul h1(7) h2(7) h3(7) by simp
  from SetNext_effect [OF u3, of n] obtain h4 where
    h4: "SetNext h3 u n = Some h4" "GetNext h4 = (GetNext h3)(u \<mapsto> n)" "GetPrev h4 = GetPrev h3"
      "GetValue h4 = GetValue h3" "offers h4 = offers h3"
      "\<forall>x. x \<noteq> u \<longrightarrow> cells h4 x = cells h3 x" "\<forall>x. cells h4 x = None \<longleftrightarrow> cells h3 x = None"
    by blast
  have "LinkAfter h u n = Some h4"
    using h1(1) h2(1) h3(1) h4(1) u nu h1(3) h2(2)
    by (simp add: LinkAfter_def obind_def)
  moreover have "\<forall>x. x \<notin> {u, v, n} \<longrightarrow> cells h4 x = cells h x"
    using h1(6) h2(6) h3(6) h4(6) by simp
  ultimately show ?thesis
    using h1 h2 h3 h4 by simp
qed

lemma delete_effect:
  assumes "cells h a \<noteq> None" "a \<noteq> 0"
  shows "\<exists>h'. delete h a = Some h' \<and> GetNext h' = (GetNext h)(a := None) \<and>
           GetPrev h' = (GetPrev h)(a := None) \<and> GetValue h' = (GetValue h)(a := None) \<and>
           offers h' = offers h \<and> cells h' = (cells h)(a := None)"
  using assms by (auto simp: delete_def GetNext_def GetPrev_def GetValue_def fun_eq_iff)

lemma UnLink_effect:
  assumes a0: "a \<noteq> 0" and p: "GetPrev h a = Some p" and n: "GetNext h a = Some n"
    and pa: "p \<noteq> a" and na: "n \<noteq> a" and pl: "cells h p \<noteq> None" and nl: "cells h n \<noteq> None"
  shows "\<exists>h'. UnLink h a = Some h' \<and>
           GetNext h' = (GetNext h)(p \<mapsto> n, a := None) \<and>
           GetPrev h' = (GetPrev h)(n \<mapsto> p, a := None) \<and>
           GetValue h' = (GetValue h)(a := None) \<and> offers h' = offers h \<and>
           (\<forall>x. x \<notin> {p, n, a} \<longrightarrow> cells h' x = cells h x) \<and> cells h' a = None"
proof -
  from p have al: "cells h a \<noteq> None" by (auto simp: GetPrev_def)
  from SetNext_effect [OF pl, of n] obtain h1 where
    h1: "SetNext h p n = Some h1" "GetNext h1 = (GetNext h)(p \<mapsto> n)" "GetPrev h1 = GetPrev h"
      "GetValue h1 = GetValue h" "offers h1 = offers h"
      "\<forall>x. x \<noteq> p \<longrightarrow> cells h1 x = cells h x" "\<forall>x. cells h1 x = None \<longleftrightarrow> cells h x = None"
    by blast
  have n1: "cells h1 n \<noteq> None" using nl h1(7) by simp
  from SetPrev_effect [OF n1, of p] obtain h2 where
    h2: "SetPrev h1 n p = Some h2" "GetPrev h2 = (GetPrev h1)(n \<mapsto> p)" "GetNext h2 = GetNext h1"
      "GetValue h2 = GetValue h1" "offers h2 = offers h1"
      "\<forall>x. x \<noteq> n \<longrightarrow> cells h2 x = cells h1 x" "\<forall>x. cells h2 x = None \<longleftrightarrow> cells h1 x = None"
    by blast
  have a2: "cells h2 a \<noteq> None" using al h1(7) h2(7) by simp
  from delete_effect [OF a2 a0] obtain h3 where
    h3: "delete h2 a = Some h3" "GetNext h3 = (GetNext h2)(a := None)"
      "GetPrev h3 = (GetPrev h2)(a := None)" "GetValue h3 = (GetValue h2)(a := None)"
      "offers h3 = offers h2" "cells h3 = (cells h2)(a := None)"
    by blast
  have "UnLink h a = Some h3"
    using a0 p n pa na h1(1,2,3) h2(1) h3(1)
    by (simp add: UnLink_def obind_def)
  moreover have "\<forall>x. x \<notin> {p, n, a} \<longrightarrow> cells h3 x = cells h x"
    using h1(6) h2(6) h3(6) by simp
  ultimately show ?thesis
    using h1 h2 h3 by simp
qed

lemma links_cong:
  assumes "\<forall>x \<in> set (p # as). GetNext h' x = GetNext h x"
    and "\<forall>x \<in> set (as @ [q]). GetPrev h' x = GetPrev h x"
  shows "links h' p as q = links h p as q"
  using assms by (induction as arbitrary: p) auto

lemma links_append: "links h p (as @ b # bs) q = (links h p as b \<and> links h b bs q)"
  by (induction as arbitrary: p) auto

lemma links_live: "links h p as q \<Longrightarrow> x \<in> set (p # as @ [q]) \<Longrightarrow> cells h x \<noteq> None"
  by (induction as arbitrary: p) (auto simp: GetNext_def GetPrev_def)

lemma links_next_hd: "links h p as q \<Longrightarrow> GetNext h p = Some (hd (as @ [q]))"
  by (cases as) auto

lemma links_prev_last: "links h p as q \<Longrightarrow> GetPrev h q = Some (last (p # as))"
  by (induction as arbitrary: p) auto

lemma links_next_last: "links h p as q \<Longrightarrow> GetNext h (last (p # as)) = Some q"
  by (induction as arbitrary: p) auto

lemma links_prev_hd: "links h p as q \<Longrightarrow> GetPrev h (hd (as @ [q])) = Some p"
  by (cases as) auto

lemma links_push_back:
  assumes l: "links h e as e" and d: "distinct (e # as)" and n: "n \<notin> set (e # as)"
    and N: "GetNext h' = (GetNext h)(n \<mapsto> e, last (e # as) \<mapsto> n)"
    and P: "GetPrev h' = (GetPrev h)(n \<mapsto> last (e # as), e \<mapsto> n)"
  shows "links h' e (as @ [n]) e"
proof (cases as rule: rev_cases)
  case Nil
  then show ?thesis using n N P by simp
next
  case (snoc bs u)
  with l have 1: "links h e bs u" by (simp add: links_append)
  have "links h' e bs u = links h e bs u"
    using d n snoc by (intro links_cong) (auto simp: N P)
  with 1 show ?thesis using snoc n d N P by (auto simp: links_append)
qed

lemma links_push_front:
  assumes l: "links h e as e" and d: "distinct (e # as)" and n: "n \<notin> set (e # as)"
    and N: "GetNext h' = (GetNext h)(n \<mapsto> hd (as @ [e]), e \<mapsto> n)"
    and P: "GetPrev h' = (GetPrev h)(n \<mapsto> e, hd (as @ [e]) \<mapsto> n)"
  shows "links h' e (n # as) e"
proof (cases as)
  case Nil
  then show ?thesis using n N P by simp
next
  case (Cons b bs)
  with l have 1: "links h b bs e" by simp
  have "links h' b bs e = links h b bs e"
    using d n Cons by (intro links_cong) (auto simp: N P)
  with 1 show ?thesis using Cons n d N P by auto
qed

lemma hd_snoc_mem: "hd (bs @ [e]) \<in> insert e (set bs)"
  by (cases bs) auto

lemma last_cons_mem: "last (e # as) \<in> insert e (set as)"
  by (cases as rule: rev_cases) auto

lemma links_unlink:
  assumes l: "links h e (as @ a # bs) e" and d: "distinct (e # as @ a # bs)"
    and N: "GetNext h' = (GetNext h)(last (e # as) \<mapsto> hd (bs @ [e]), a := None)"
    and P: "GetPrev h' = (GetPrev h)(hd (bs @ [e]) \<mapsto> last (e # as), a := None)"
  shows "links h' e (as @ bs) e"
proof -
  from l have la: "links h e as a" and lb: "links h a bs e" by (simp_all add: links_append)
  have v: "hd (bs @ [e]) \<notin> set as" "hd (bs @ [e]) \<noteq> a"
    using hd_snoc_mem [of bs e] d by auto
  have u: "last (e # as) \<notin> set bs" "last (e # as) \<noteq> a"
    using last_cons_mem [of e as] d by auto
  show ?thesis
  proof (cases as rule: rev_cases)
    case Nil
    show ?thesis
    proof (cases bs)
      case bn: Nil
      then show ?thesis using Nil d N P by simp
    next
      case (Cons b cs)
      with lb have 1: "links h b cs e" by simp
      have "links h' b cs e = links h b cs e"
        using d Nil Cons by (intro links_cong) (auto simp: N P)
      with 1 show ?thesis using Nil Cons d N P by auto
    qed
  next
    case (snoc as1 u1)
    with la have 1: "links h e as1 u1" by (simp add: links_append)
    have 2: "links h' e as1 u1 = links h e as1 u1"
      using d snoc v by (intro links_cong) (auto simp: N P)
    show ?thesis
    proof (cases bs)
      case Nil
      then show ?thesis using snoc d N P 1 2 by (auto simp: links_append)
    next
      case (Cons b cs)
      with lb have 3: "links h b cs e" by simp
      have "links h' b cs e = links h b cs e"
        using d snoc Cons by (intro links_cong) (auto simp: N P)
      with 3 show ?thesis using snoc Cons d N P 1 2 by (auto simp: links_append)
    qed
  qed
qed


subsection \<open>Rings under the primitives\<close>

lemma distinct_addr_length:
  fixes ys :: "addr list"
  assumes "distinct ys"
  shows "length ys \<le> 2 ^ 64"
proof -
  have "length ys = card (set ys)" using assms by (simp add: distinct_card)
  also have "\<dots> \<le> card (UNIV :: addr set)" by (rule card_mono) auto
  also have "\<dots> = 2 ^ 64" by (simp add: card_word)
  finally show ?thesis .
qed

lemma ring_length_bound:
  assumes "ring h e as xs"
  shows "length as + 2 \<le> 2 ^ 64"
proof -
  from assms have "distinct (0 # e # as)" by (auto simp: ring_def)
  from distinct_addr_length [OF this] show ?thesis by simp
qed

lemma unat_succ_bounded:
  fixes w :: "64 word"
  assumes "unat w + 1 < 2 ^ 64"
  shows "unat (w + 1) = unat w + 1"
  using assms by (simp add: unat_word_ariths)

lemma ring_length: "ring h e as xs \<Longrightarrow> length xs = length as"
  by (auto simp: ring_def dest: map_eq_imp_length_eq)

lemma ring_live: "ring h e as xs \<Longrightarrow> x \<in> set (e # as) \<Longrightarrow> cells h x \<noteq> None"
  using links_live [of h e as e x] by (auto simp: ring_def)

lemma ring_value_nth:
  assumes "ring h e as xs" and "i < length as"
  shows "GetValue h (as ! i) = Some (xs ! i)" and "as ! i \<noteq> 0" and "as ! i \<noteq> e"
proof -
  from assms(1) have m: "map (GetValue h) as = map Some xs" and z: "0 \<notin> set as"
    and d: "e \<notin> set as"
    by (simp_all add: ring_def)
  have len: "length xs = length as" using ring_length [OF assms(1)] .
  have "map (GetValue h) as ! i = map Some xs ! i" using m by simp
  then show "GetValue h (as ! i) = Some (xs ! i)" using assms(2) len by simp
  show "as ! i \<noteq> 0" using z assms(2) nth_mem [of i as] by metis
  show "as ! i \<noteq> e" using d assms(2) nth_mem [of i as] by metis
qed

lemma ring_frame:
  assumes "ring h e as xs" and "\<forall>x \<in> set (e # as). cells h' x = cells h x"
  shows "ring h' e as xs"
proof -
  have N: "\<forall>x \<in> set (e # as). GetNext h' x = GetNext h x"
    and P: "\<forall>x \<in> set (e # as). GetPrev h' x = GetPrev h x"
    and V: "\<forall>x \<in> set (e # as). GetValue h' x = GetValue h x"
    using assms(2) by (simp_all add: GetNext_def GetPrev_def GetValue_def)
  have "links h' e as e = links h e as e"
    using N P by (intro links_cong) auto
  moreover have "map (GetValue h') as = map (GetValue h) as"
    using V by simp
  moreover from assms(1) have "e \<noteq> 0" "0 \<notin> set as" "distinct (e # as)" "links h e as e"
    "GetValue h e = None" "map (GetValue h) as = map Some xs"
    by (simp_all add: ring_def)
  moreover have "GetValue h' e = GetValue h e" using V by simp
  ultimately show ?thesis unfolding ring_def by presburger
qed

lemma map_eq_remove_nth:
  assumes "map f (as @ a # bs) = map g xs"
  shows "map f (as @ bs) = map g (take (length as) xs @ drop (Suc (length as)) xs)"
proof -
  have "take (length as) (map f (as @ a # bs)) = take (length as) (map g xs)"
    using assms by simp
  then have 1: "map f as = map g (take (length as) xs)"
    by (simp add: take_map)
  have "drop (Suc (length as)) (map f (as @ a # bs)) = drop (Suc (length as)) (map g xs)"
    using assms by simp
  then have 2: "map f bs = map g (drop (Suc (length as)) xs)"
    by (simp add: drop_map)
  show ?thesis using 1 2 by simp
qed

lemma ring_unlink:
  assumes r: "ring h e (as @ a # bs) xs"
  shows "\<exists>h'. UnLink h a = Some h' \<and>
           ring h' e (as @ bs) (take (length as) xs @ drop (Suc (length as)) xs) \<and>
           offers h' = offers h \<and>
           (\<forall>y. y \<notin> set (e # as @ a # bs) \<longrightarrow> cells h' y = cells h y) \<and> cells h' a = None"
proof -
  let ?u = "last (e # as)" and ?v = "hd (bs @ [e])"
  from r have l: "links h e (as @ a # bs) e" and d: "distinct (e # as @ a # bs)"
    and z: "e \<noteq> 0" "0 \<notin> set (as @ a # bs)" and ve: "GetValue h e = None"
    and m: "map (GetValue h) (as @ a # bs) = map Some xs"
    by (simp_all add: ring_def)
  from l have la: "links h e as a" and lb: "links h a bs e" by (simp_all add: links_append)
  have p: "GetPrev h a = Some ?u" using links_prev_last [OF la] .
  have n: "GetNext h a = Some ?v" using links_next_hd [OF lb] .
  have um: "?u \<in> set (e # as)" using last_cons_mem [of e as] by simp
  have vm: "?v \<in> set (e # bs)" using hd_snoc_mem [of bs e] by simp
  have ua: "?u \<noteq> a" and va: "?v \<noteq> a" using um vm d by auto
  have ul: "cells h ?u \<noteq> None" using ring_live [OF r, of ?u] um by auto
  have vl: "cells h ?v \<noteq> None" using ring_live [OF r, of ?v] vm by auto
  from z have a0: "a \<noteq> 0" by auto
  from UnLink_effect [OF a0 p n ua va ul vl] obtain h' where
    h': "UnLink h a = Some h'"
      "GetNext h' = (GetNext h)(?u \<mapsto> ?v, a := None)"
      "GetPrev h' = (GetPrev h)(?v \<mapsto> ?u, a := None)"
      "GetValue h' = (GetValue h)(a := None)" "offers h' = offers h"
      "\<forall>x. x \<notin> {?u, ?v, a} \<longrightarrow> cells h' x = cells h x" "cells h' a = None"
    by blast
  have l': "links h' e (as @ bs) e" using links_unlink [OF l d h'(2) h'(3)] .
  have "map (GetValue h') (as @ bs) = map (GetValue h) (as @ bs)"
    using d by (simp add: h'(4))
  also have "\<dots> = map Some (take (length as) xs @ drop (Suc (length as)) xs)"
    using map_eq_remove_nth [OF m] .
  finally have m': "map (GetValue h') (as @ bs) =
      map Some (take (length as) xs @ drop (Suc (length as)) xs)" .
  have "ring h' e (as @ bs) (take (length as) xs @ drop (Suc (length as)) xs)"
    using l' m' d z ve by (simp add: ring_def h'(4))
  moreover have "\<forall>y. y \<notin> set (e # as @ a # bs) \<longrightarrow> cells h' y = cells h y"
  proof -
    have "?u \<in> set (e # as @ a # bs)" "?v \<in> set (e # as @ a # bs)" "a \<in> set (e # as @ a # bs)"
      using um vm by auto
    moreover have "\<And>x. x \<noteq> ?u \<Longrightarrow> x \<noteq> ?v \<Longrightarrow> x \<noteq> a \<Longrightarrow> cells h' x = cells h x"
      using h'(6) by simp
    ultimately show ?thesis by metis
  qed
  ultimately show ?thesis using h'(1,5,7) by blast
qed

lemma ring_push_back:
  assumes r: "ring h e as xs" and n0: "n \<noteq> 0" and nf: "cells h n = None"
    and c1: "cells h1 = (cells h)(n \<mapsto> \<lparr>m_prev = 0, m_next = 0, m_value = Some x\<rparr>)"
  shows "\<exists>h2. obind (GetPrev h1 e) (\<lambda>after. LinkAfter h1 after n) = Some h2 \<and>
           ring h2 e (as @ [n]) (xs @ [x]) \<and> offers h2 = offers h1 \<and>
           (\<forall>y. y \<notin> set (e # as) \<longrightarrow> y \<noteq> n \<longrightarrow> cells h2 y = cells h y)"
proof -
  let ?u = "last (e # as)"
  have nn: "n \<notin> set (e # as)" using ring_live [OF r, of n] nf by blast
  have r1: "ring h1 e as xs" using nn by (intro ring_frame [OF r]) (auto simp: c1)
  then have l1: "links h1 e as e" and d: "distinct (e # as)" and z: "e \<noteq> 0" "0 \<notin> set as"
    and ve: "GetValue h1 e = None" and m: "map (GetValue h1) as = map Some xs"
    by (simp_all add: ring_def)
  have um: "?u \<in> set (e # as)" using last_cons_mem [of e as] by simp
  have p: "GetPrev h1 e = Some ?u" using links_prev_last [OF l1] .
  have nx: "GetNext h1 ?u = Some e" using links_next_last [OF l1] .
  have nl: "cells h1 n \<noteq> None" by (simp add: c1)
  have el: "cells h1 e \<noteq> None" using ring_live [OF r1, of e] by simp
  have nu: "n \<noteq> ?u" using um nn by metis
  have ne: "n \<noteq> e" using nn by simp
  from LinkAfter_effect [OF nx nl el nu ne] obtain h2 where
    h2: "LinkAfter h1 ?u n = Some h2"
      "GetNext h2 = (GetNext h1)(n \<mapsto> e, ?u \<mapsto> n)"
      "GetPrev h2 = (GetPrev h1)(n \<mapsto> ?u, e \<mapsto> n)"
      "GetValue h2 = GetValue h1" "offers h2 = offers h1"
      "\<forall>y. y \<notin> {?u, e, n} \<longrightarrow> cells h2 y = cells h1 y"
    by blast
  have l2: "links h2 e (as @ [n]) e" using links_push_back [OF l1 d nn h2(2) h2(3)] .
  have vn: "GetValue h1 n = Some x" by (simp add: GetValue_def c1)
  have "ring h2 e (as @ [n]) (xs @ [x])"
    using l2 d z n0 nn ve m vn by (auto simp: ring_def h2(4))
  moreover have "obind (GetPrev h1 e) (\<lambda>after. LinkAfter h1 after n) = Some h2"
    using p h2(1) by (simp add: obind_def)
  moreover have "\<forall>y. y \<notin> set (e # as) \<longrightarrow> y \<noteq> n \<longrightarrow> cells h2 y = cells h y"
  proof -
    have "\<And>y. y \<noteq> ?u \<Longrightarrow> y \<noteq> e \<Longrightarrow> y \<noteq> n \<Longrightarrow> cells h2 y = cells h y"
      using h2(6) by (simp add: c1)
    moreover have "e \<in> set (e # as)" by simp
    ultimately show ?thesis using um by metis
  qed
  ultimately show ?thesis using h2(5) by blast
qed

lemma ring_push_front:
  assumes r: "ring h e as xs" and n0: "n \<noteq> 0" and nf: "cells h n = None"
    and c1: "cells h1 = (cells h)(n \<mapsto> \<lparr>m_prev = 0, m_next = 0, m_value = Some x\<rparr>)"
  shows "\<exists>h2. LinkAfter h1 e n = Some h2 \<and>
           ring h2 e (n # as) (x # xs) \<and> offers h2 = offers h1 \<and>
           (\<forall>y. y \<notin> set (e # as) \<longrightarrow> y \<noteq> n \<longrightarrow> cells h2 y = cells h y)"
proof -
  let ?v = "hd (as @ [e])"
  have nn: "n \<notin> set (e # as)" using ring_live [OF r, of n] nf by blast
  have r1: "ring h1 e as xs" using nn by (intro ring_frame [OF r]) (auto simp: c1)
  then have l1: "links h1 e as e" and d: "distinct (e # as)" and z: "e \<noteq> 0" "0 \<notin> set as"
    and ve: "GetValue h1 e = None" and m: "map (GetValue h1) as = map Some xs"
    by (simp_all add: ring_def)
  have vm: "?v \<in> set (e # as)" using hd_snoc_mem [of as e] by simp
  have nx: "GetNext h1 e = Some ?v" using links_next_hd [OF l1] .
  have nl: "cells h1 n \<noteq> None" by (simp add: c1)
  have vl: "cells h1 ?v \<noteq> None" using ring_live [OF r1, of ?v] vm by blast
  have nv: "n \<noteq> ?v" using vm nn by metis
  have ne: "n \<noteq> e" using nn by simp
  from LinkAfter_effect [OF nx nl vl ne nv] obtain h2 where
    h2: "LinkAfter h1 e n = Some h2"
      "GetNext h2 = (GetNext h1)(n \<mapsto> ?v, e \<mapsto> n)"
      "GetPrev h2 = (GetPrev h1)(n \<mapsto> e, ?v \<mapsto> n)"
      "GetValue h2 = GetValue h1" "offers h2 = offers h1"
      "\<forall>y. y \<notin> {e, ?v, n} \<longrightarrow> cells h2 y = cells h1 y"
    by blast
  have l2: "links h2 e (n # as) e" using links_push_front [OF l1 d nn h2(2) h2(3)] .
  have vn: "GetValue h1 n = Some x" by (simp add: GetValue_def c1)
  have "ring h2 e (n # as) (x # xs)"
    using l2 d z n0 nn ve m vn by (auto simp: ring_def h2(4))
  moreover have "\<forall>y. y \<notin> set (e # as) \<longrightarrow> y \<noteq> n \<longrightarrow> cells h2 y = cells h y"
  proof -
    have "\<And>y. y \<noteq> ?v \<Longrightarrow> y \<noteq> e \<Longrightarrow> y \<noteq> n \<Longrightarrow> cells h2 y = cells h y"
      using h2(6) by (simp add: c1)
    moreover have "e \<in> set (e # as)" by simp
    ultimately show ?thesis using vm by metis
  qed
  ultimately show ?thesis using h2(1,5) by blast
qed


subsection \<open>The calls on a well-formed list\<close>

lemma operator_new_effect:
  assumes "operator_new h = (a, h1)"
  shows "cells h1 = cells h" and "a \<noteq> 0 \<Longrightarrow> cells h a = None" and "offers h1 = tl (offers h)"
  using assms by (auto simp: operator_new_def split: list.splits if_splits)

lemma new_TNode_Returns:
  assumes "new_TNode T x h = Returns n h1"
  shows "n \<noteq> 0 \<and> cells h n = None \<and>
         cells h1 = (cells h)(n \<mapsto> \<lparr>m_prev = 0, m_next = 0, m_value = Some x\<rparr>) \<and>
         offers h1 = tl (offers h)"
proof -
  obtain a h0 where o: "operator_new h = (a, h0)" by (cases "operator_new h")
  with assms have "a = n" "a \<noteq> 0"
    and "h1 = h0\<lparr>cells := (cells h0)(a \<mapsto> \<lparr>m_prev = 0, m_next = 0, m_value = Some x\<rparr>)\<rparr>"
    by (auto simp: new_TNode_def split: if_splits)
  then show ?thesis using operator_new_effect [OF o] by simp
qed

lemma new_TNode_move_Returns:
  assumes "new_TNode_move T x h = Returns n h1"
  shows "n \<noteq> 0 \<and> cells h n = None \<and>
         cells h1 = (cells h)(n \<mapsto> \<lparr>m_prev = 0, m_next = 0, m_value = Some x\<rparr>) \<and>
         offers h1 = tl (offers h)"
proof -
  obtain a h0 where o: "operator_new h = (a, h0)" by (cases "operator_new h")
  with assms have "a = n" "a \<noteq> 0"
    and "h1 = h0\<lparr>cells := (cells h0)(a \<mapsto> \<lparr>m_prev = 0, m_next = 0, m_value = Some x\<rparr>)\<rparr>"
    by (auto simp: new_TNode_move_def split: if_splits)
  then show ?thesis using operator_new_effect [OF o] by simp
qed

lemma new_TNode_Throws:
  assumes "new_TNode T x h = Throws sg h1"
  shows "cells h1 = cells h \<and> offers h1 = tl (offers h) \<and> sg \<in> {bad_alloc, element_exception}"
proof -
  obtain a h0 where o: "operator_new h = (a, h0)" by (cases "operator_new h")
  with assms have "h1 = h0" "sg \<in> {bad_alloc, element_exception}"
    by (auto simp: new_TNode_def split: if_splits)
  then show ?thesis using operator_new_effect [OF o] by simp
qed

lemma new_TNode_move_Throws:
  assumes "new_TNode_move T x h = Throws sg h1"
  shows "cells h1 = cells h \<and> offers h1 = tl (offers h) \<and> sg = bad_alloc"
proof -
  obtain a h0 where o: "operator_new h = (a, h0)" by (cases "operator_new h")
  with assms have "h1 = h0" "sg = bad_alloc"
    by (auto simp: new_TNode_move_def split: if_splits)
  then show ?thesis using operator_new_effect [OF o] by simp
qed

lemma new_TNode_defined: "new_TNode T x h \<noteq> Undefined" "new_TNode T x h \<noteq> Terminates"
  by (auto simp: new_TNode_def split: prod.splits)

lemma new_TNode_move_defined: "new_TNode_move T x h \<noteq> Undefined"
  by (auto simp: new_TNode_move_def split: prod.splits)

lemma new_ListNode_Returns:
  assumes "new_ListNode h = Returns n h1"
  shows "n \<noteq> 0 \<and> cells h n = None \<and>
         cells h1 = (cells h)(n \<mapsto> \<lparr>m_prev = 0, m_next = 0, m_value = None\<rparr>) \<and>
         offers h1 = tl (offers h)"
proof -
  obtain a h0 where o: "operator_new h = (a, h0)" by (cases "operator_new h")
  with assms have "a = n" "a \<noteq> 0"
    and "h1 = h0\<lparr>cells := (cells h0)(a \<mapsto> \<lparr>m_prev = 0, m_next = 0, m_value = None\<rparr>)\<rparr>"
    by (auto simp: new_ListNode_def split: if_splits)
  then show ?thesis using operator_new_effect [OF o] by simp
qed

lemma new_ListNode_Throws:
  assumes "new_ListNode h = Throws sg h1"
  shows "cells h1 = cells h \<and> offers h1 = tl (offers h) \<and> sg = bad_alloc"
proof -
  obtain a h0 where o: "operator_new h = (a, h0)" by (cases "operator_new h")
  with assms have "h1 = h0" "sg = bad_alloc"
    by (auto simp: new_ListNode_def split: if_splits)
  then show ?thesis using operator_new_effect [OF o] by simp
qed

lemma new_ListNode_defined: "new_ListNode h \<noteq> Undefined" "new_ListNode h \<noteq> Terminates"
  by (auto simp: new_ListNode_def split: prod.splits)

text \<open>A fresh self-linked sentinel is an empty ring.\<close>

lemma self_link_ring:
  assumes n0: "n \<noteq> 0"
    and c1: "cells h1 = (cells h)(n \<mapsto> \<lparr>m_prev = 0, m_next = 0, m_value = None\<rparr>)"
  shows "\<exists>h2. self_link h1 n = Some h2 \<and> ring h2 n [] [] \<and> offers h2 = offers h1 \<and>
           (\<forall>y. y \<noteq> n \<longrightarrow> cells h2 y = cells h y)"
proof -
  have nl: "cells h1 n \<noteq> None" by (simp add: c1)
  from SetNext_effect [OF nl, of n] obtain h2 where
    h2: "SetNext h1 n n = Some h2" "GetNext h2 = (GetNext h1)(n \<mapsto> n)" "GetPrev h2 = GetPrev h1"
      "GetValue h2 = GetValue h1" "offers h2 = offers h1"
      "\<forall>x. x \<noteq> n \<longrightarrow> cells h2 x = cells h1 x" "\<forall>x. cells h2 x = None \<longleftrightarrow> cells h1 x = None"
    by blast
  have n2: "cells h2 n \<noteq> None" using nl h2(7) by simp
  from SetPrev_effect [OF n2, of n] obtain h3 where
    h3: "SetPrev h2 n n = Some h3" "GetPrev h3 = (GetPrev h2)(n \<mapsto> n)" "GetNext h3 = GetNext h2"
      "GetValue h3 = GetValue h2" "offers h3 = offers h2"
      "\<forall>x. x \<noteq> n \<longrightarrow> cells h3 x = cells h2 x" "\<forall>x. cells h3 x = None \<longleftrightarrow> cells h2 x = None"
    by blast
  have "self_link h1 n = Some h3" using h2(1) h3(1) by (simp add: self_link_def obind_def)
  moreover have "GetValue h1 n = None" by (simp add: GetValue_def c1)
  then have "ring h3 n [] []" using n0 h2 h3 by (simp add: ring_def)
  moreover have "\<forall>y. y \<noteq> n \<longrightarrow> cells h3 y = cells h y" using h2(6) h3(6) by (simp add: c1)
  ultimately show ?thesis using h2(5) h3(5) by simp
qed

lemma List_ctor_Returns:
  assumes "List_ctor h = Returns l h2"
  shows "well_formed h2 l [] [] \<and> cells h (m_end l) = None \<and> m_size l = 0 \<and>
         offers h2 = tl (offers h) \<and> (\<forall>y. y \<noteq> m_end l \<longrightarrow> cells h2 y = cells h y)"
proof -
  from assms obtain n h1 where n: "new_ListNode h = Returns n h1"
    by (auto simp: List_ctor_def split: outcome.splits)
  note f = new_ListNode_Returns [OF n]
  from f self_link_ring [of n h1 h] obtain h3 where
    h3: "self_link h1 n = Some h3" "ring h3 n [] []" "offers h3 = offers h1"
      "\<forall>y. y \<noteq> n \<longrightarrow> cells h3 y = cells h y"
    by blast
  with assms n have "l = \<lparr>m_end = n, m_size = 0\<rparr>" "h2 = h3"
    by (simp_all add: List_ctor_def)
  then show ?thesis using h3 f by (simp add: well_formed_def)
qed

lemma size_after_push:
  assumes "ring h e as xs" and "unat (w :: 64 word) + 1 = length as"
  shows "unat (w + 1) = length as"
proof -
  have "length as + 2 \<le> 2 ^ 64" using ring_length_bound [OF assms(1)] .
  then have "unat w + 1 < 2 ^ 64" using assms(2) by simp
  from unat_succ_bounded [OF this] show ?thesis using assms(2) by simp
qed

lemma push_back_step:
  assumes wf: "well_formed h l as xs"
    and fr: "\<And>n h1. fresh h = Returns n h1 \<Longrightarrow> n \<noteq> 0 \<and> cells h n = None \<and>
        cells h1 = (cells h)(n \<mapsto> \<lparr>m_prev = 0, m_next = 0, m_value = Some x\<rparr>) \<and>
        offers h1 = tl (offers h)"
    and res: "push fresh (\<lambda>h l. GetPrev h (m_end l)) (l, h) = Returns u s1"
  shows "\<exists>n. well_formed (snd s1) (fst s1) (as @ [n]) (xs @ [x]) \<and> cells h n = None \<and>
           m_end (fst s1) = m_end l \<and> offers (snd s1) = tl (offers h) \<and>
           (\<forall>y. y \<notin> set (m_end l # as) \<longrightarrow> y \<noteq> n \<longrightarrow> cells (snd s1) y = cells h y)"
proof -
  from wf have r: "ring h (m_end l) as xs" and sz: "unat (m_size l) = length as"
    by (simp_all add: well_formed_def)
  from res obtain n h1 where n: "fresh h = Returns n h1"
    by (auto simp: push_def split: outcome.splits option.splits)
  note f = fr [OF n]
  from f ring_push_back [OF r, of n h1 x] obtain h2 where
    h2: "obind (GetPrev h1 (m_end l)) (\<lambda>after. LinkAfter h1 after n) = Some h2"
      "ring h2 (m_end l) (as @ [n]) (xs @ [x])" "offers h2 = offers h1"
      "\<forall>y. y \<notin> set (m_end l # as) \<longrightarrow> y \<noteq> n \<longrightarrow> cells h2 y = cells h y"
    by blast
  from res n h2(1) have s1: "s1 = (l\<lparr>m_size := m_size l + 1\<rparr>, h2)"
    by (simp add: push_def)
  have "unat (m_size l + 1) = length (as @ [n])"
    using size_after_push [OF h2(2)] sz by simp
  then have "well_formed h2 (l\<lparr>m_size := m_size l + 1\<rparr>) (as @ [n]) (xs @ [x])"
    using h2(2) by (simp add: well_formed_def)
  then show ?thesis using s1 h2(3,4) f by auto
qed

lemma push_front_step:
  assumes wf: "well_formed h l as xs"
    and fr: "\<And>n h1. fresh h = Returns n h1 \<Longrightarrow> n \<noteq> 0 \<and> cells h n = None \<and>
        cells h1 = (cells h)(n \<mapsto> \<lparr>m_prev = 0, m_next = 0, m_value = Some x\<rparr>) \<and>
        offers h1 = tl (offers h)"
    and res: "push fresh (\<lambda>h l. Some (m_end l)) (l, h) = Returns u s1"
  shows "\<exists>n. well_formed (snd s1) (fst s1) (n # as) (x # xs) \<and> cells h n = None \<and>
           m_end (fst s1) = m_end l \<and> offers (snd s1) = tl (offers h) \<and>
           (\<forall>y. y \<notin> set (m_end l # as) \<longrightarrow> y \<noteq> n \<longrightarrow> cells (snd s1) y = cells h y)"
proof -
  from wf have r: "ring h (m_end l) as xs" and sz: "unat (m_size l) = length as"
    by (simp_all add: well_formed_def)
  from res obtain n h1 where n: "fresh h = Returns n h1"
    by (auto simp: push_def split: outcome.splits option.splits)
  note f = fr [OF n]
  from f ring_push_front [OF r, of n h1 x] obtain h2 where
    h2: "LinkAfter h1 (m_end l) n = Some h2"
      "ring h2 (m_end l) (n # as) (x # xs)" "offers h2 = offers h1"
      "\<forall>y. y \<notin> set (m_end l # as) \<longrightarrow> y \<noteq> n \<longrightarrow> cells h2 y = cells h y"
    by blast
  from res n h2(1) have s1: "s1 = (l\<lparr>m_size := m_size l + 1\<rparr>, h2)"
    by (simp add: push_def obind_def)
  have "unat (m_size l + 1) = length (n # as)"
    using size_after_push [OF h2(2)] sz by simp
  then have "well_formed h2 (l\<lparr>m_size := m_size l + 1\<rparr>) (n # as) (x # xs)"
    using h2(2) by (simp add: well_formed_def)
  then show ?thesis using s1 h2(3,4) f by auto
qed

text \<open>An insertion that throws leaves the object and the cells as they were.\<close>

lemma push_Throws:
  assumes fr: "\<And>sg h1. fresh h = Throws sg h1 \<Longrightarrow> cells h1 = cells h \<and> offers h1 = tl (offers h)"
    and res: "push fresh anchor (l, h) = Throws sg s1"
  shows "fst s1 = l \<and> cells (snd s1) = cells h \<and> offers (snd s1) = tl (offers h) \<and>
         fresh h = Throws sg (snd s1)"
proof -
  from res obtain h1 where n: "fresh h = Throws sg h1"
    by (auto simp: push_def split: outcome.splits option.splits)
  with res have "s1 = (l, h1)" by (simp add: push_def delete_def)
  then show ?thesis using fr [OF n] n by simp
qed

lemma size_after_pop:
  assumes "unat (w :: 64 word) = Suc k"
  shows "unat (w - 1) = k"
proof -
  from assms have "w \<noteq> 0" by (auto simp: unat_eq_0)
  then show ?thesis using assms by (simp add: unat_minus_one)
qed

lemma erase_node_step:
  assumes wf: "well_formed h l (as @ a # bs) xs"
  shows "\<exists>h1. UnLink h a = Some h1 \<and>
           well_formed h1 (l\<lparr>m_size := m_size l - 1\<rparr>) (as @ bs)
             (take (length as) xs @ drop (Suc (length as)) xs) \<and>
           offers h1 = offers h \<and>
           (\<forall>y. y \<notin> set (m_end l # as @ a # bs) \<longrightarrow> cells h1 y = cells h y)"
proof -
  from wf have r: "ring h (m_end l) (as @ a # bs) xs"
    and sz: "unat (m_size l) = Suc (length (as @ bs))"
    by (simp_all add: well_formed_def)
  from ring_unlink [OF r] obtain h1 where
    h1: "UnLink h a = Some h1"
      "ring h1 (m_end l) (as @ bs) (take (length as) xs @ drop (Suc (length as)) xs)"
      "offers h1 = offers h"
      "\<forall>y. y \<notin> set (m_end l # as @ a # bs) \<longrightarrow> cells h1 y = cells h y"
    by blast
  have "unat (m_size l - 1) = length (as @ bs)" using size_after_pop [OF sz] .
  then have "well_formed h1 (l\<lparr>m_size := m_size l - 1\<rparr>) (as @ bs)
      (take (length as) xs @ drop (Suc (length as)) xs)"
    using h1(2) by (simp add: well_formed_def)
  then show ?thesis using h1(1,3,4) by blast
qed

lemma well_formed_length: "well_formed h l as xs \<Longrightarrow> length xs = length as"
  using ring_length [of h "m_end l" as xs] by (simp add: well_formed_def)

lemma PopBack_step:
  assumes wf: "well_formed h l as xs" and ne: "as \<noteq> []"
  shows "\<exists>h1. PopBack (l, h) = Returns () (l\<lparr>m_size := m_size l - 1\<rparr>, h1) \<and>
           well_formed h1 (l\<lparr>m_size := m_size l - 1\<rparr>) (butlast as) (butlast xs) \<and>
           offers h1 = offers h \<and>
           (\<forall>y. y \<notin> set (m_end l # as) \<longrightarrow> cells h1 y = cells h y)"
proof -
  have as: "as = butlast as @ last as # []" using ne by simp
  have len: "length xs = length as" using well_formed_length [OF wf] .
  from wf have "links h (m_end l) as (m_end l)" by (simp add: well_formed_def ring_def)
  from links_prev_last [OF this] have p: "GetPrev h (m_end l) = Some (last as)"
    using ne by simp
  have wf': "well_formed h l (butlast as @ last as # []) xs" using wf as by simp
  from erase_node_step [OF wf'] obtain h1 where
    h1: "UnLink h (last as) = Some h1"
      "well_formed h1 (l\<lparr>m_size := m_size l - 1\<rparr>) (butlast as @ [])
        (take (length (butlast as)) xs @ drop (Suc (length (butlast as))) xs)"
      "offers h1 = offers h"
      "\<forall>y. y \<notin> set (m_end l # butlast as @ last as # []) \<longrightarrow> cells h1 y = cells h y"
    by blast
  have "take (length (butlast as)) xs @ drop (Suc (length (butlast as))) xs = butlast xs"
    using len ne by (simp add: butlast_conv_take)
  with h1(2) have "well_formed h1 (l\<lparr>m_size := m_size l - 1\<rparr>) (butlast as) (butlast xs)"
    by simp
  moreover have "PopBack (l, h) = Returns () (l\<lparr>m_size := m_size l - 1\<rparr>, h1)"
    using p h1(1) by (simp add: PopBack_def obind_def)
  moreover have "\<forall>y. y \<notin> set (m_end l # as) \<longrightarrow> cells h1 y = cells h y"
    using h1(4) as by metis
  ultimately show ?thesis using h1(3) by blast
qed

lemma PopFront_step:
  assumes wf: "well_formed h l as xs" and ne: "as \<noteq> []"
  shows "\<exists>h1. PopFront (l, h) = Returns () (l\<lparr>m_size := m_size l - 1\<rparr>, h1) \<and>
           well_formed h1 (l\<lparr>m_size := m_size l - 1\<rparr>) (tl as) (tl xs) \<and>
           offers h1 = offers h \<and>
           (\<forall>y. y \<notin> set (m_end l # as) \<longrightarrow> cells h1 y = cells h y)"
proof -
  have as: "as = [] @ hd as # tl as" using ne by simp
  from wf have "links h (m_end l) as (m_end l)" by (simp add: well_formed_def ring_def)
  from links_next_hd [OF this] have p: "GetNext h (m_end l) = Some (hd as)"
    using ne by simp
  have wf': "well_formed h l ([] @ hd as # tl as) xs" using wf as by simp
  from erase_node_step [OF wf'] obtain h1 where
    h1: "UnLink h (hd as) = Some h1"
      "well_formed h1 (l\<lparr>m_size := m_size l - 1\<rparr>) ([] @ tl as)
        (take (length ([] :: addr list)) xs @ drop (Suc (length ([] :: addr list))) xs)"
      "offers h1 = offers h"
      "\<forall>y. y \<notin> set (m_end l # [] @ hd as # tl as) \<longrightarrow> cells h1 y = cells h y"
    by blast
  from h1(2) have "well_formed h1 (l\<lparr>m_size := m_size l - 1\<rparr>) (tl as) (tl xs)"
    by (simp add: drop_Suc)
  moreover have "PopFront (l, h) = Returns () (l\<lparr>m_size := m_size l - 1\<rparr>, h1)"
    using p h1(1) by (simp add: PopFront_def obind_def)
  moreover have "\<forall>y. y \<notin> set (m_end l # as) \<longrightarrow> cells h1 y = cells h y"
    using h1(4) as by metis
  ultimately show ?thesis using h1(3) by blast
qed


subsection \<open>Traversal and single calls\<close>

lemma collect_links:
  assumes "links h p bs e" and "e \<notin> set bs" and "0 \<notin> set bs"
    and "map (GetValue h) bs = map Some ys"
  shows "collect h (Iterator e) (Iterator (hd (bs @ [e]))) out =
         Some (Returns (out @ ys) (Iterator e))"
  using assms
proof (induction bs arbitrary: p ys out)
  case Nil
  then show ?case by (subst collect.simps) (simp add: iter_neq_def)
next
  case (Cons b bs)
  from Cons.prems(4) obtain y ys1 where ys: "ys = y # ys1" and vb: "GetValue h b = Some y"
    and m1: "map (GetValue h) bs = map Some ys1"
    by (cases ys) auto
  from Cons.prems(1) have l1: "links h b bs e" by simp
  have n: "GetNext h b = Some (hd (bs @ [e]))" using links_next_hd [OF l1] .
  have IH: "collect h (Iterator e) (Iterator (hd (bs @ [e]))) (out @ [y]) =
      Some (Returns ((out @ [y]) @ ys1) (Iterator e))"
    using Cons.IH [OF l1 _ _ m1] Cons.prems(2,3) by simp
  have be: "b \<noteq> e" and b0: "b \<noteq> 0" using Cons.prems(2,3) by auto
  show ?case
    using be b0 vb n IH ys
    by (subst collect.simps) (simp add: iter_neq_def deref_def pre_increment_def)
qed

lemma traverse_ring:
  assumes "ring h (m_end l) as xs"
  shows "traverse h l = Some (Returns xs (End l))"
proof -
  from assms have l: "links h (m_end l) as (m_end l)" and d: "m_end l \<notin> set as"
    and z: "0 \<notin> set as" and m: "map (GetValue h) as = map Some xs"
    by (simp_all add: ring_def)
  have "GetNext h (m_end l) = Some (hd (as @ [m_end l]))" using links_next_hd [OF l] .
  then show ?thesis
    using collect_links [OF l d z m, of "[]"] by (simp add: traverse_def Begin_def End_def)
qed

lemma links_next_nth:
  assumes "links h p as q" and "i < length as"
  shows "GetNext h (as ! i) = Some ((as @ [q]) ! Suc i)"
  using assms
proof (induction as arbitrary: p i)
  case Nil
  then show ?case by simp
next
  case (Cons a as)
  from Cons.prems(1) have l1: "links h a as q" by simp
  show ?case
  proof (cases i)
    case 0
    then show ?thesis using links_next_hd [OF l1] by (simp add: hd_conv_nth)
  next
    case (Suc j)
    then show ?thesis using Cons.IH [OF l1, of j] Cons.prems(2) by simp
  qed
qed

lemma ring_next_cyc:
  assumes "ring h e as xs" and "i \<le> length as"
  shows "GetNext h ((as @ [e]) ! i) = Some ((as @ [e]) ! (Suc i mod Suc (length as)))"
    and "(as @ [e]) ! i \<noteq> 0"
proof -
  from assms(1) have l: "links h e as e" and z: "e \<noteq> 0" "0 \<notin> set as"
    by (simp_all add: ring_def)
  show "GetNext h ((as @ [e]) ! i) = Some ((as @ [e]) ! (Suc i mod Suc (length as)))"
  proof (cases "i < length as")
    case True
    then show ?thesis using links_next_nth [OF l True] by (simp add: nth_append)
  next
    case False
    with assms(2) have "i = length as" by simp
    then show ?thesis using links_next_hd [OF l] by (simp add: hd_conv_nth)
  qed
  have "(as @ [e]) ! i \<in> set (as @ [e])" using assms(2) by (intro nth_mem) simp
  then show "(as @ [e]) ! i \<noteq> 0" using z by auto
qed

lemma advance_ring:
  assumes "ring h e as xs" and "i \<le> length as"
  shows "advance h k (Iterator ((as @ [e]) ! i)) =
         Returns () (Iterator ((as @ [e]) ! ((i + k) mod Suc (length as))))"
  using assms(2)
proof (induction k arbitrary: i)
  case 0
  then show ?case by simp
next
  case (Suc k)
  let ?j = "Suc i mod Suc (length as)"
  have j: "?j \<le> length as" using mod_less_divisor [of "Suc (length as)" "Suc i"] by simp
  have "(?j + k) mod Suc (length as) = (i + Suc k) mod Suc (length as)"
    by (simp add: mod_add_left_eq)
  then show ?case
    using ring_next_cyc [OF assms(1) Suc.prems] Suc.IH [OF j]
    by (simp add: pre_increment_def)
qed

lemma push_back_defined:
  assumes wf: "well_formed h l as xs"
    and fr: "\<And>n h1. fresh h = Returns n h1 \<Longrightarrow> n \<noteq> 0 \<and> cells h n = None \<and>
        cells h1 = (cells h)(n \<mapsto> \<lparr>m_prev = 0, m_next = 0, m_value = Some x\<rparr>) \<and>
        offers h1 = tl (offers h)"
    and df: "fresh h \<noteq> Undefined"
  shows "push fresh (\<lambda>h l. GetPrev h (m_end l)) (l, h) \<noteq> Undefined"
proof (cases "fresh h")
  case (Returns n h1)
  from wf have r: "ring h (m_end l) as xs" by (simp add: well_formed_def)
  from fr [OF Returns] ring_push_back [OF r, of n h1 x] obtain h2 where
    "obind (GetPrev h1 (m_end l)) (\<lambda>after. LinkAfter h1 after n) = Some h2" by blast
  then show ?thesis using Returns by (simp add: push_def)
next
  case (Throws sg h1)
  then show ?thesis by (simp add: push_def delete_def)
next
  case Terminates
  then show ?thesis by (simp add: push_def)
next
  case Undefined
  then show ?thesis using df by simp
qed

lemma push_front_defined:
  assumes wf: "well_formed h l as xs"
    and fr: "\<And>n h1. fresh h = Returns n h1 \<Longrightarrow> n \<noteq> 0 \<and> cells h n = None \<and>
        cells h1 = (cells h)(n \<mapsto> \<lparr>m_prev = 0, m_next = 0, m_value = Some x\<rparr>) \<and>
        offers h1 = tl (offers h)"
    and df: "fresh h \<noteq> Undefined"
  shows "push fresh (\<lambda>h l. Some (m_end l)) (l, h) \<noteq> Undefined"
proof (cases "fresh h")
  case (Returns n h1)
  from wf have r: "ring h (m_end l) as xs" by (simp add: well_formed_def)
  from fr [OF Returns] ring_push_front [OF r, of n h1 x] obtain h2 where
    "LinkAfter h1 (m_end l) n = Some h2" by blast
  then show ?thesis using Returns by (simp add: push_def obind_def)
next
  case (Throws sg h1)
  then show ?thesis by (simp add: push_def delete_def)
next
  case Terminates
  then show ?thesis by (simp add: push_def)
next
  case Undefined
  then show ?thesis using df by simp
qed

lemma PushBack_step:
  assumes wf: "well_formed h l as xs" and res: "PushBack T x (l, h) = Returns u s1"
  shows "\<exists>n. well_formed (snd s1) (fst s1) (as @ [n]) (xs @ [x]) \<and> cells h n = None \<and>
           m_end (fst s1) = m_end l \<and> offers (snd s1) = tl (offers h) \<and>
           (\<forall>y. y \<notin> set (m_end l # as) \<longrightarrow> y \<noteq> n \<longrightarrow> cells (snd s1) y = cells h y)"
proof -
  have fr: "\<And>n h1. new_TNode T x h = Returns n h1 \<Longrightarrow> n \<noteq> 0 \<and> cells h n = None \<and>
        cells h1 = (cells h)(n \<mapsto> \<lparr>m_prev = 0, m_next = 0, m_value = Some x\<rparr>) \<and>
        offers h1 = tl (offers h)"
    by (rule new_TNode_Returns)
  from res have r: "push (new_TNode T x) (\<lambda>h l. GetPrev h (m_end l)) (l, h) = Returns u s1"
    by (simp add: PushBack_def)
  from push_back_step [where fresh = "new_TNode T x", OF wf fr r] show ?thesis .
qed

lemma PushBack_defined:
  assumes wf: "well_formed h l as xs"
  shows "PushBack T x (l, h) \<noteq> Undefined"
proof -
  have fr: "\<And>n h1. new_TNode T x h = Returns n h1 \<Longrightarrow> n \<noteq> 0 \<and> cells h n = None \<and>
        cells h1 = (cells h)(n \<mapsto> \<lparr>m_prev = 0, m_next = 0, m_value = Some x\<rparr>) \<and>
        offers h1 = tl (offers h)"
    by (rule new_TNode_Returns)
  have df: "new_TNode T x h \<noteq> Undefined" by (rule new_TNode_defined(1))
  from push_back_defined [where fresh = "new_TNode T x", OF wf fr df] show ?thesis
    by (simp add: PushBack_def)
qed

lemma PushBack_move_step:
  assumes wf: "well_formed h l as xs" and res: "PushBack_move T x (l, h) = Returns u s1"
  shows "\<exists>n. well_formed (snd s1) (fst s1) (as @ [n]) (xs @ [x]) \<and> cells h n = None \<and>
           m_end (fst s1) = m_end l \<and> offers (snd s1) = tl (offers h) \<and>
           (\<forall>y. y \<notin> set (m_end l # as) \<longrightarrow> y \<noteq> n \<longrightarrow> cells (snd s1) y = cells h y)"
proof -
  have fr: "\<And>n h1. new_TNode_move T x h = Returns n h1 \<Longrightarrow> n \<noteq> 0 \<and> cells h n = None \<and>
        cells h1 = (cells h)(n \<mapsto> \<lparr>m_prev = 0, m_next = 0, m_value = Some x\<rparr>) \<and>
        offers h1 = tl (offers h)"
    by (rule new_TNode_move_Returns)
  from res have r: "push (new_TNode_move T x) (\<lambda>h l. GetPrev h (m_end l)) (l, h) = Returns u s1"
    by (simp add: PushBack_move_def)
  from push_back_step [where fresh = "new_TNode_move T x", OF wf fr r] show ?thesis .
qed

lemma PushBack_move_defined:
  assumes wf: "well_formed h l as xs"
  shows "PushBack_move T x (l, h) \<noteq> Undefined"
proof -
  have fr: "\<And>n h1. new_TNode_move T x h = Returns n h1 \<Longrightarrow> n \<noteq> 0 \<and> cells h n = None \<and>
        cells h1 = (cells h)(n \<mapsto> \<lparr>m_prev = 0, m_next = 0, m_value = Some x\<rparr>) \<and>
        offers h1 = tl (offers h)"
    by (rule new_TNode_move_Returns)
  have df: "new_TNode_move T x h \<noteq> Undefined" by (rule new_TNode_move_defined)
  from push_back_defined [where fresh = "new_TNode_move T x", OF wf fr df] show ?thesis
    by (simp add: PushBack_move_def)
qed

lemma PushFront_step:
  assumes wf: "well_formed h l as xs" and res: "PushFront T x (l, h) = Returns u s1"
  shows "\<exists>n. well_formed (snd s1) (fst s1) (n # as) (x # xs) \<and> cells h n = None \<and>
           m_end (fst s1) = m_end l \<and> offers (snd s1) = tl (offers h) \<and>
           (\<forall>y. y \<notin> set (m_end l # as) \<longrightarrow> y \<noteq> n \<longrightarrow> cells (snd s1) y = cells h y)"
proof -
  have fr: "\<And>n h1. new_TNode T x h = Returns n h1 \<Longrightarrow> n \<noteq> 0 \<and> cells h n = None \<and>
        cells h1 = (cells h)(n \<mapsto> \<lparr>m_prev = 0, m_next = 0, m_value = Some x\<rparr>) \<and>
        offers h1 = tl (offers h)"
    by (rule new_TNode_Returns)
  from res have r: "push (new_TNode T x) (\<lambda>h l. Some (m_end l)) (l, h) = Returns u s1"
    by (simp add: PushFront_def)
  from push_front_step [where fresh = "new_TNode T x", OF wf fr r] show ?thesis .
qed

lemma PushFront_defined:
  assumes wf: "well_formed h l as xs"
  shows "PushFront T x (l, h) \<noteq> Undefined"
proof -
  have fr: "\<And>n h1. new_TNode T x h = Returns n h1 \<Longrightarrow> n \<noteq> 0 \<and> cells h n = None \<and>
        cells h1 = (cells h)(n \<mapsto> \<lparr>m_prev = 0, m_next = 0, m_value = Some x\<rparr>) \<and>
        offers h1 = tl (offers h)"
    by (rule new_TNode_Returns)
  have df: "new_TNode T x h \<noteq> Undefined" by (rule new_TNode_defined(1))
  from push_front_defined [where fresh = "new_TNode T x", OF wf fr df] show ?thesis
    by (simp add: PushFront_def)
qed

lemma PushFront_move_step:
  assumes wf: "well_formed h l as xs" and res: "PushFront_move T x (l, h) = Returns u s1"
  shows "\<exists>n. well_formed (snd s1) (fst s1) (n # as) (x # xs) \<and> cells h n = None \<and>
           m_end (fst s1) = m_end l \<and> offers (snd s1) = tl (offers h) \<and>
           (\<forall>y. y \<notin> set (m_end l # as) \<longrightarrow> y \<noteq> n \<longrightarrow> cells (snd s1) y = cells h y)"
proof -
  have fr: "\<And>n h1. new_TNode_move T x h = Returns n h1 \<Longrightarrow> n \<noteq> 0 \<and> cells h n = None \<and>
        cells h1 = (cells h)(n \<mapsto> \<lparr>m_prev = 0, m_next = 0, m_value = Some x\<rparr>) \<and>
        offers h1 = tl (offers h)"
    by (rule new_TNode_move_Returns)
  from res have r: "push (new_TNode_move T x) (\<lambda>h l. Some (m_end l)) (l, h) = Returns u s1"
    by (simp add: PushFront_move_def)
  from push_front_step [where fresh = "new_TNode_move T x", OF wf fr r] show ?thesis .
qed

lemma PushFront_move_defined:
  assumes wf: "well_formed h l as xs"
  shows "PushFront_move T x (l, h) \<noteq> Undefined"
proof -
  have fr: "\<And>n h1. new_TNode_move T x h = Returns n h1 \<Longrightarrow> n \<noteq> 0 \<and> cells h n = None \<and>
        cells h1 = (cells h)(n \<mapsto> \<lparr>m_prev = 0, m_next = 0, m_value = Some x\<rparr>) \<and>
        offers h1 = tl (offers h)"
    by (rule new_TNode_move_Returns)
  have df: "new_TNode_move T x h \<noteq> Undefined" by (rule new_TNode_move_defined)
  from push_front_defined [where fresh = "new_TNode_move T x", OF wf fr df] show ?thesis
    by (simp add: PushFront_move_def)
qed

text \<open>
  What a call that returns leaves behind: a well-formed list on the same sentinel, whose
  nodes are old ones or were not live before, and every other live node as it was.
\<close>

lemma apply_op_step:
  assumes wf: "well_formed h l as xs" and m: "model_op c xs = Some ys"
    and res: "apply_op T c (l, h) = Returns u s1"
  shows "\<exists>as'. well_formed (snd s1) (fst s1) as' ys \<and> m_end (fst s1) = m_end l \<and>
           set as' \<subseteq> set as \<union> {a. cells h a = None} \<and>
           (\<forall>y. y \<notin> set (m_end l # as) \<longrightarrow> cells h y \<noteq> None \<longrightarrow> cells (snd s1) y = cells h y)"
proof (cases c)
  case (OpPushBack x)
  with res have r: "PushBack T x (l, h) = Returns u s1" by simp
  from PushBack_step [OF wf r] obtain n where
    "well_formed (snd s1) (fst s1) (as @ [n]) (xs @ [x])" "cells h n = None"
    "m_end (fst s1) = m_end l"
    "\<forall>y. y \<notin> set (m_end l # as) \<longrightarrow> y \<noteq> n \<longrightarrow> cells (snd s1) y = cells h y"
    by blast
  then show ?thesis using m OpPushBack by (intro exI [of _ "as @ [n]"]) auto
next
  case (OpPushBackMove x)
  with res have r: "PushBack_move T x (l, h) = Returns u s1" by simp
  from PushBack_move_step [OF wf r] obtain n where
    "well_formed (snd s1) (fst s1) (as @ [n]) (xs @ [x])" "cells h n = None"
    "m_end (fst s1) = m_end l"
    "\<forall>y. y \<notin> set (m_end l # as) \<longrightarrow> y \<noteq> n \<longrightarrow> cells (snd s1) y = cells h y"
    by blast
  then show ?thesis using m OpPushBackMove by (intro exI [of _ "as @ [n]"]) auto
next
  case (OpPushFront x)
  with res have r: "PushFront T x (l, h) = Returns u s1" by simp
  from PushFront_step [OF wf r] obtain n where
    "well_formed (snd s1) (fst s1) (n # as) (x # xs)" "cells h n = None"
    "m_end (fst s1) = m_end l"
    "\<forall>y. y \<notin> set (m_end l # as) \<longrightarrow> y \<noteq> n \<longrightarrow> cells (snd s1) y = cells h y"
    by blast
  then show ?thesis using m OpPushFront by (intro exI [of _ "n # as"]) auto
next
  case (OpPushFrontMove x)
  with res have r: "PushFront_move T x (l, h) = Returns u s1" by simp
  from PushFront_move_step [OF wf r] obtain n where
    "well_formed (snd s1) (fst s1) (n # as) (x # xs)" "cells h n = None"
    "m_end (fst s1) = m_end l"
    "\<forall>y. y \<notin> set (m_end l # as) \<longrightarrow> y \<noteq> n \<longrightarrow> cells (snd s1) y = cells h y"
    by blast
  then show ?thesis using m OpPushFrontMove by (intro exI [of _ "n # as"]) auto
next
  case OpPopBack
  with m have xs: "xs \<noteq> []" and ys: "ys = butlast xs" by (auto split: if_splits)
  with well_formed_length [OF wf] have ne: "as \<noteq> []" by auto
  from PopBack_step [OF wf ne] res OpPopBack obtain h1 where
    "s1 = (l\<lparr>m_size := m_size l - 1\<rparr>, h1)"
    "well_formed h1 (l\<lparr>m_size := m_size l - 1\<rparr>) (butlast as) (butlast xs)"
    "\<forall>y. y \<notin> set (m_end l # as) \<longrightarrow> cells h1 y = cells h y"
    by auto
  then show ?thesis using ys
    by (intro exI [of _ "butlast as"]) (auto dest: in_set_butlastD)
next
  case OpPopFront
  with m have xs: "xs \<noteq> []" and ys: "ys = tl xs" by (auto split: if_splits)
  with well_formed_length [OF wf] have ne: "as \<noteq> []" by auto
  from PopFront_step [OF wf ne] res OpPopFront obtain h1 where
    "s1 = (l\<lparr>m_size := m_size l - 1\<rparr>, h1)"
    "well_formed h1 (l\<lparr>m_size := m_size l - 1\<rparr>) (tl as) (tl xs)"
    "\<forall>y. y \<notin> set (m_end l # as) \<longrightarrow> cells h1 y = cells h y"
    by auto
  then show ?thesis using ys ne
    by (intro exI [of _ "tl as"]) (auto dest: list.set_sel(2))
qed

lemma apply_op_defined:
  assumes wf: "well_formed h l as xs" and m: "model_op c xs = Some ys"
  shows "apply_op T c (l, h) \<noteq> Undefined"
proof (cases c)
  case (OpPushBack x)
  then show ?thesis using PushBack_defined [OF wf] by simp
next
  case (OpPushBackMove x)
  then show ?thesis using PushBack_move_defined [OF wf] by simp
next
  case (OpPushFront x)
  then show ?thesis using PushFront_defined [OF wf] by simp
next
  case (OpPushFrontMove x)
  then show ?thesis using PushFront_move_defined [OF wf] by simp
next
  case OpPopBack
  with m have "xs \<noteq> []" by (auto split: if_splits)
  with well_formed_length [OF wf] have ne: "as \<noteq> []" by auto
  from PopBack_step [OF wf ne] show ?thesis using OpPopBack by auto
next
  case OpPopFront
  with m have "xs \<noteq> []" by (auto split: if_splits)
  with well_formed_length [OF wf] have ne: "as \<noteq> []" by auto
  from PopFront_step [OF wf ne] show ?thesis using OpPopFront by auto
qed

subsection \<open>Sequences of calls\<close>

lemma Erase_at_step:
  assumes wf: "well_formed h l as xs" and j: "j \<le> length as"
  shows "\<exists>l1 h1. Erase (Iterator ((as @ [m_end l]) ! j)) (l, h) = Returns () (l1, h1) \<and>
           well_formed h1 l1 (take j as @ drop (Suc j) as) (take j xs @ drop (Suc j) xs) \<and>
           m_end l1 = m_end l \<and> offers h1 = offers h \<and>
           (\<forall>y. y \<notin> set (m_end l # as) \<longrightarrow> cells h1 y = cells h y)"
proof (cases "j < length as")
  case False
  with j have je: "j = length as" by simp
  have len: "length xs = length as" using well_formed_length [OF wf] .
  have "Erase (Iterator ((as @ [m_end l]) ! j)) (l, h) = Returns () (l, h)"
    using je by (simp add: Erase_def)
  then show ?thesis using wf je len by simp
next
  case True
  from wf have r: "ring h (m_end l) as xs" by (simp add: well_formed_def)
  have ne: "as ! j \<noteq> m_end l" using ring_value_nth(3) [OF r True] .
  have as: "as = take j as @ as ! j # drop (Suc j) as" using True by (rule id_take_nth_drop)
  have wf': "well_formed h l (take j as @ as ! j # drop (Suc j) as) xs" using wf as by simp
  from erase_node_step [OF wf'] obtain h1 where
    h1: "UnLink h (as ! j) = Some h1"
      "well_formed h1 (l\<lparr>m_size := m_size l - 1\<rparr>) (take j as @ drop (Suc j) as)
        (take (length (take j as)) xs @ drop (Suc (length (take j as))) xs)"
      "offers h1 = offers h"
      "\<forall>y. y \<notin> set (m_end l # take j as @ as ! j # drop (Suc j) as) \<longrightarrow> cells h1 y = cells h y"
    by blast
  have "length (take j as) = j" using True by simp
  with h1(2) have w: "well_formed h1 (l\<lparr>m_size := m_size l - 1\<rparr>) (take j as @ drop (Suc j) as)
        (take j xs @ drop (Suc j) xs)" by simp
  have e: "Erase (Iterator ((as @ [m_end l]) ! j)) (l, h) =
      Returns () (l\<lparr>m_size := m_size l - 1\<rparr>, h1)"
    using True ne h1(1) by (simp add: Erase_def nth_append)
  have f: "\<forall>y. y \<notin> set (m_end l # as) \<longrightarrow> cells h1 y = cells h y"
    using h1(4) as by metis
  show ?thesis using e w f h1(3) by simp
qed

lemma apply_mutation_step:
  assumes wf: "well_formed h l as xs" and m: "model_mutation c xs = Some ys"
    and res: "apply_mutation T c (l, h) = Returns u s1"
  shows "\<exists>as'. well_formed (snd s1) (fst s1) as' ys \<and> m_end (fst s1) = m_end l \<and>
           set as' \<subseteq> set as \<union> {a. cells h a = None} \<and>
           (\<forall>y. y \<notin> set (m_end l # as) \<longrightarrow> cells h y \<noteq> None \<longrightarrow> cells (snd s1) y = cells h y)"
proof (cases c)
  case (Op c1)
  then show ?thesis using apply_op_step [OF wf, of c1 ys T u s1] m res by simp
next
  case (EraseAt k)
  let ?j = "k mod Suc (length as)"
  from wf have r: "ring h (m_end l) as xs" by (simp add: well_formed_def)
  then have l: "links h (m_end l) as (m_end l)" by (simp add: ring_def)
  have len: "length xs = length as" using well_formed_length [OF wf] .
  have b: "Begin h l = Some (Iterator ((as @ [m_end l]) ! 0))"
    using links_next_hd [OF l] by (simp add: Begin_def hd_conv_nth)
  have a: "advance h k (Iterator ((as @ [m_end l]) ! 0)) = Returns () (Iterator ((as @ [m_end l]) ! ?j))"
    using advance_ring [OF r, of 0 k] by simp
  have j: "?j \<le> length as" using mod_less_divisor [of "Suc (length as)" k] by simp
  from Erase_at_step [OF wf j] obtain l1 h1 where
    e: "Erase (Iterator ((as @ [m_end l]) ! ?j)) (l, h) = Returns () (l1, h1)"
      "well_formed h1 l1 (take ?j as @ drop (Suc ?j) as) (take ?j xs @ drop (Suc ?j) xs)"
      "m_end l1 = m_end l"
      "\<forall>y. y \<notin> set (m_end l # as) \<longrightarrow> cells h1 y = cells h y"
    by blast
  from res EraseAt b a e(1) have s1: "s1 = (l1, h1)" by simp
  from m EraseAt len have ys: "ys = take ?j xs @ drop (Suc ?j) xs" by (simp add: Let_def)
  have "set (take ?j as @ drop (Suc ?j) as) \<subseteq> set as"
    using set_take_subset [of ?j as] set_drop_subset [of "Suc ?j" as] by simp
  then show ?thesis using s1 ys e(2,3,4) by (intro exI [of _ "take ?j as @ drop (Suc ?j) as"]) auto
qed

lemma apply_mutation_defined:
  assumes wf: "well_formed h l as xs" and m: "model_mutation c xs = Some ys"
  shows "apply_mutation T c (l, h) \<noteq> Undefined"
proof (cases c)
  case (Op c1)
  then show ?thesis using apply_op_defined [OF wf, of c1 ys T] m by simp
next
  case (EraseAt k)
  let ?j = "k mod Suc (length as)"
  from wf have r: "ring h (m_end l) as xs" by (simp add: well_formed_def)
  then have l: "links h (m_end l) as (m_end l)" by (simp add: ring_def)
  have b: "Begin h l = Some (Iterator ((as @ [m_end l]) ! 0))"
    using links_next_hd [OF l] by (simp add: Begin_def hd_conv_nth)
  have a: "advance h k (Iterator ((as @ [m_end l]) ! 0)) = Returns () (Iterator ((as @ [m_end l]) ! ?j))"
    using advance_ring [OF r, of 0 k] by simp
  have j: "?j \<le> length as" using mod_less_divisor [of "Suc (length as)" k] by simp
  from Erase_at_step [OF wf j] obtain l1 h1 where
    "Erase (Iterator ((as @ [m_end l]) ! ?j)) (l, h) = Returns () (l1, h1)" by blast
  then show ?thesis using EraseAt b a by simp
qed

text \<open>
  Sequences of calls on one list, next to a set \<open>S\<close> of live nodes that are not its own
  (the nodes of other lists): the list stays well formed and apart from \<open>S\<close>, and the
  nodes of \<open>S\<close> keep their contents.
\<close>

lemma run_mutations:
  assumes "well_formed h l as xs" and "S \<inter> set (m_end l # as) = {}"
    and "\<forall>y\<in>S. cells h y \<noteq> None"
    and "model_run model_mutation cs xs = Some ys"
    and "run (apply_mutation T) cs (l, h) = Returns u s1"
  shows "\<exists>as'. well_formed (snd s1) (fst s1) as' ys \<and> m_end (fst s1) = m_end l \<and>
           S \<inter> set (m_end l # as') = {} \<and> (\<forall>y\<in>S. cells (snd s1) y = cells h y)"
  using assms
proof (induction cs arbitrary: l h as xs)
  case Nil
  then show ?case by auto
next
  case (Cons c cs)
  from Cons.prems(4) obtain zs where c: "model_mutation c xs = Some zs"
    and cs: "model_run model_mutation cs zs = Some ys"
    by (auto split: option.splits)
  from Cons.prems(5) obtain u1 l1 h1 where a: "apply_mutation T c (l, h) = Returns u1 (l1, h1)"
    and rn: "run (apply_mutation T) cs (l1, h1) = Returns u s1"
    by (auto split: outcome.splits)
  from apply_mutation_step [OF Cons.prems(1) c a] obtain as1 where
    w1: "well_formed h1 l1 as1 zs" and e1: "m_end l1 = m_end l"
    and sub: "set as1 \<subseteq> set as \<union> {a. cells h a = None}"
    and fr: "\<forall>y. y \<notin> set (m_end l # as) \<longrightarrow> cells h y \<noteq> None \<longrightarrow> cells h1 y = cells h y"
    by auto
  have d: "S \<inter> set as = {}" "m_end l \<notin> S" using Cons.prems(2) by auto
  have "S \<inter> set as1 = {}" using d(1) Cons.prems(3) sub by blast
  then have S1: "S \<inter> set (m_end l1 # as1) = {}" using d(2) e1 by simp
  have k: "\<forall>y\<in>S. cells h1 y = cells h y"
    using Cons.prems(2,3) fr by blast
  then have L1: "\<forall>y\<in>S. cells h1 y \<noteq> None" using Cons.prems(3) by simp
  from Cons.IH [OF w1 S1 L1 cs rn] obtain as2 where
    "well_formed (snd s1) (fst s1) as2 ys" "m_end (fst s1) = m_end l1"
    "S \<inter> set (m_end l1 # as2) = {}" "\<forall>y\<in>S. cells (snd s1) y = cells h1 y"
    by blast
  then show ?case using e1 k by (intro exI [of _ as2]) simp
qed

lemma run_mutations_defined:
  assumes "well_formed h l as xs" and "model_run model_mutation cs xs = Some ys"
  shows "run (apply_mutation T) cs (l, h) \<noteq> Undefined"
  using assms
proof (induction cs arbitrary: l h as xs)
  case Nil
  then show ?case by simp
next
  case (Cons c cs)
  from Cons.prems(2) obtain zs where c: "model_mutation c xs = Some zs"
    and cs: "model_run model_mutation cs zs = Some ys"
    by (auto split: option.splits)
  show ?case
  proof (cases "apply_mutation T c (l, h)")
    case (Returns u1 s1)
    from apply_mutation_step [OF Cons.prems(1) c, of T u1 s1] Returns obtain as1 where
      "well_formed (snd s1) (fst s1) as1 zs" by blast
    from Cons.IH [OF this cs] show ?thesis using Returns by simp
  next
    case (Throws sg s1)
    then show ?thesis by simp
  next
    case Terminates
    then show ?thesis by simp
  next
    case Undefined
    then show ?thesis using apply_mutation_defined [OF Cons.prems(1) c, of T] by simp
  qed
qed

lemma run_map_Op: "run (apply_mutation T) (map Op cs) s = run (apply_op T) cs s"
  by (induction cs arbitrary: s) (auto split: outcome.splits)

lemma model_run_map_Op: "model_run model_mutation (map Op cs) xs = model_run model_op cs xs"
  by (induction cs arbitrary: xs) (auto split: option.splits)

lemma model_run_length:
  assumes "model_run model_op cs xs = Some ys"
  shows "length ys + pops cs = length xs + pushes cs"
  using assms
proof (induction cs arbitrary: xs)
  case Nil
  then show ?case by (simp add: pushes_def pops_def)
next
  case (Cons c cs)
  from Cons.prems obtain zs where c: "model_op c xs = Some zs"
    and cs: "model_run model_op cs zs = Some ys"
    by (auto split: option.splits)
  from Cons.IH [OF cs] have IH: "length ys + pops cs = length zs + pushes cs" .
  from c show ?case using IH
    by (cases c) (auto simp: pushes_def pops_def split: if_splits)
qed

subsection \<open>Calls that are served\<close>

lemma good_offers_iff:
  "good_offers h \<longleftrightarrow>
     distinct (offers h) \<and> 0 \<notin> set (offers h) \<and> (\<forall>a\<in>set (offers h). cells h a = None)"
  by (simp add: good_offers_def list_all_iff)

lemma operator_new_served:
  assumes "good_offers h" and "offers h = a # rest"
  shows "operator_new h = (a, h\<lparr>offers := rest\<rparr>)" and "a \<noteq> 0" and "cells h a = None"
  using assms by (auto simp: good_offers_iff operator_new_def)

lemma new_TNode_served:
  assumes "good_offers h" and "offers h = a # rest" and "\<not> copy_throws T x"
  shows "new_TNode T x h = Returns a
           (h\<lparr>offers := rest, cells := (cells h)(a \<mapsto> \<lparr>m_prev = 0, m_next = 0, m_value = Some x\<rparr>)\<rparr>)"
  using operator_new_served [OF assms(1,2)] assms(3) by (simp add: new_TNode_def)

lemma new_TNode_move_served:
  assumes "good_offers h" and "offers h = a # rest" and "\<not> move_throws T x"
  shows "new_TNode_move T x h = Returns a
           (h\<lparr>offers := rest, cells := (cells h)(a \<mapsto> \<lparr>m_prev = 0, m_next = 0, m_value = Some x\<rparr>)\<rparr>)"
  using operator_new_served [OF assms(1,2)] assms(3) by (simp add: new_TNode_move_def)

lemma new_ListNode_served:
  assumes "good_offers h" and "offers h = a # rest"
  shows "new_ListNode h = Returns a
           (h\<lparr>offers := rest, cells := (cells h)(a \<mapsto> \<lparr>m_prev = 0, m_next = 0, m_value = None\<rparr>)\<rparr>)"
  using operator_new_served [OF assms(1,2)] by (simp add: new_ListNode_def)

text \<open>A served insertion returns, and the remaining offers are still good.\<close>

lemma push_served:
  assumes wf: "well_formed h l as xs" and g: "good_offers h" and o: "offers h = n # rest"
    and fr: "fresh h = Returns n
        (h\<lparr>offers := rest, cells := (cells h)(n \<mapsto> \<lparr>m_prev = 0, m_next = 0, m_value = Some x\<rparr>)\<rparr>)"
    and an: "anchor = (\<lambda>h l. GetPrev h (m_end l)) \<or> anchor = (\<lambda>h l. Some (m_end l))"
  shows "\<exists>s1. push fresh anchor (l, h) = Returns () s1 \<and> good_offers (snd s1) \<and>
           offers (snd s1) = rest"
proof -
  let ?h1 = "h\<lparr>offers := rest, cells := (cells h)(n \<mapsto> \<lparr>m_prev = 0, m_next = 0, m_value = Some x\<rparr>)\<rparr>"
  from wf have r: "ring h (m_end l) as xs" by (simp add: well_formed_def)
  from g o have n0: "n \<noteq> 0" and nf: "cells h n = None" and dr: "n \<notin> set rest" "distinct rest"
    "0 \<notin> set rest" and fr': "\<forall>a\<in>set rest. cells h a = None"
    by (auto simp: good_offers_iff)
  have c1: "cells ?h1 = (cells h)(n \<mapsto> \<lparr>m_prev = 0, m_next = 0, m_value = Some x\<rparr>)" by simp
  have live: "\<forall>y\<in>set (m_end l # as). cells h y \<noteq> None" using ring_live [OF r] by blast
  have "\<exists>h2. obind (anchor ?h1 l) (\<lambda>after. LinkAfter ?h1 after n) = Some h2 \<and>
      offers h2 = offers ?h1 \<and>
      (\<forall>y. y \<notin> set (m_end l # as) \<longrightarrow> y \<noteq> n \<longrightarrow> cells h2 y = cells h y)"
  proof (cases "anchor = (\<lambda>h l. GetPrev h (m_end l))")
    case True
    from ring_push_back [OF r n0 nf c1] show ?thesis unfolding True by blast
  next
    case False
    with an have a: "anchor = (\<lambda>h l. Some (m_end l))" by simp
    from ring_push_front [OF r n0 nf c1] show ?thesis unfolding a by (auto simp: obind_def)
  qed
  then obtain h2 where h2: "obind (anchor ?h1 l) (\<lambda>after. LinkAfter ?h1 after n) = Some h2"
    "offers h2 = rest"
    "\<forall>y. y \<notin> set (m_end l # as) \<longrightarrow> y \<noteq> n \<longrightarrow> cells h2 y = cells h y"
    by auto
  have p: "push fresh anchor (l, h) = Returns () (l\<lparr>m_size := m_size l + 1\<rparr>, h2)"
    using fr h2(1) by (simp add: push_def)
  have "\<forall>a\<in>set rest. cells h2 a = None"
  proof
    fix a assume a: "a \<in> set rest"
    then have "cells h a = None" using fr' by blast
    then have "a \<notin> set (m_end l # as)" using live by blast
    moreover have "a \<noteq> n" using a dr(1) by blast
    ultimately have "cells h2 a = cells h a" using h2(3) by blast
    then show "cells h2 a = None" using \<open>cells h a = None\<close> by simp
  qed
  then have "good_offers h2" using dr h2(2) by (simp add: good_offers_iff)
  then show ?thesis using p h2(2) by simp
qed

lemma apply_op_served:
  assumes wf: "well_formed h l as xs" and g: "good_offers h" and m: "model_op c xs = Some ys"
    and nt: "\<not> throws_on T c" and en: "is_push c \<longrightarrow> offers h \<noteq> []"
  shows "\<exists>s1. apply_op T c (l, h) = Returns () s1 \<and> good_offers (snd s1) \<and>
           offers (snd s1) = (if is_push c then tl (offers h) else offers h)"
proof -
  have pop: "\<And>h1 :: 'a memory. offers h1 = offers h \<Longrightarrow>
      \<forall>y. y \<notin> set (m_end l # as) \<longrightarrow> cells h1 y = cells h y \<Longrightarrow> good_offers h1"
  proof -
    fix h1 :: "'a memory" assume o: "offers h1 = offers h"
      and f: "\<forall>y. y \<notin> set (m_end l # as) \<longrightarrow> cells h1 y = cells h y"
    from wf have r: "ring h (m_end l) as xs" by (simp add: well_formed_def)
    have live: "\<forall>y\<in>set (m_end l # as). cells h y \<noteq> None" using ring_live [OF r] by blast
    have "\<forall>a\<in>set (offers h). cells h1 a = None"
    proof
      fix a assume "a \<in> set (offers h)"
      then have n: "cells h a = None" using g by (simp add: good_offers_iff)
      then have "a \<notin> set (m_end l # as)" using live by blast
      then have "cells h1 a = cells h a" using f by blast
      then show "cells h1 a = None" using n by simp
    qed
    then show "good_offers h1" using g o by (simp add: good_offers_iff)
  qed
  show ?thesis
  proof (cases c)
    case (OpPushBack x)
    with en obtain n rest where o: "offers h = n # rest" by (cases "offers h") auto
    from OpPushBack nt have "\<not> copy_throws T x" by simp
    from push_served [where fresh = "new_TNode T x" and anchor = "\<lambda>h l. GetPrev h (m_end l)",
        OF wf g o new_TNode_served [OF g o this]]
    show ?thesis using OpPushBack o by (simp add: PushBack_def)
  next
    case (OpPushBackMove x)
    with en obtain n rest where o: "offers h = n # rest" by (cases "offers h") auto
    from OpPushBackMove nt have "\<not> move_throws T x" by simp
    from push_served [where fresh = "new_TNode_move T x" and anchor = "\<lambda>h l. GetPrev h (m_end l)",
        OF wf g o new_TNode_move_served [OF g o this]]
    show ?thesis using OpPushBackMove o by (simp add: PushBack_move_def)
  next
    case (OpPushFront x)
    with en obtain n rest where o: "offers h = n # rest" by (cases "offers h") auto
    from OpPushFront nt have "\<not> copy_throws T x" by simp
    from push_served [where fresh = "new_TNode T x" and anchor = "\<lambda>h l. Some (m_end l)",
        OF wf g o new_TNode_served [OF g o this]]
    show ?thesis using OpPushFront o by (simp add: PushFront_def)
  next
    case (OpPushFrontMove x)
    with en obtain n rest where o: "offers h = n # rest" by (cases "offers h") auto
    from OpPushFrontMove nt have "\<not> move_throws T x" by simp
    from push_served [where fresh = "new_TNode_move T x" and anchor = "\<lambda>h l. Some (m_end l)",
        OF wf g o new_TNode_move_served [OF g o this]]
    show ?thesis using OpPushFrontMove o by (simp add: PushFront_move_def)
  next
    case OpPopBack
    with m have "xs \<noteq> []" by (auto split: if_splits)
    with well_formed_length [OF wf] have ne: "as \<noteq> []" by auto
    from PopBack_step [OF wf ne] obtain h1 where
      "PopBack (l, h) = Returns () (l\<lparr>m_size := m_size l - 1\<rparr>, h1)" "offers h1 = offers h"
      "\<forall>y. y \<notin> set (m_end l # as) \<longrightarrow> cells h1 y = cells h y"
      by blast
    then show ?thesis using OpPopBack pop [of h1] by simp
  next
    case OpPopFront
    with m have "xs \<noteq> []" by (auto split: if_splits)
    with well_formed_length [OF wf] have ne: "as \<noteq> []" by auto
    from PopFront_step [OF wf ne] obtain h1 where
      "PopFront (l, h) = Returns () (l\<lparr>m_size := m_size l - 1\<rparr>, h1)" "offers h1 = offers h"
      "\<forall>y. y \<notin> set (m_end l # as) \<longrightarrow> cells h1 y = cells h y"
      by blast
    then show ?thesis using OpPopFront pop [of h1] by simp
  qed
qed

subsection \<open>The loops\<close>

lemma size_zero_update: "m_size l = 0 \<Longrightarrow> l\<lparr>m_size := 0\<rparr> = l"
  by (cases l) simp

lemma pop_back_all_clear:
  assumes "well_formed h l as xs"
  shows "\<exists>h1. pop_back_all (l, h) = Returns () (l\<lparr>m_size := 0\<rparr>, h1) \<and>
           well_formed h1 (l\<lparr>m_size := 0\<rparr>) [] [] \<and> offers h1 = offers h \<and>
           (\<forall>y. y \<notin> set (m_end l # as) \<longrightarrow> cells h1 y = cells h y)"
  using assms
proof (induction as arbitrary: l h xs rule: rev_induct)
  case Nil
  then have z: "m_size l = 0" by (simp add: well_formed_def unat_eq_0)
  have "xs = []" using well_formed_length [OF Nil] by simp
  then show ?case
    using Nil z by (subst pop_back_all.simps) (simp add: IsEmpty_def size_zero_update)
next
  case (snoc a as)
  have ne: "as @ [a] \<noteq> []" by simp
  from snoc.prems have nz: "m_size l \<noteq> 0" by (auto simp: well_formed_def)
  from PopBack_step [OF snoc.prems ne] obtain h1 where
    p: "PopBack (l, h) = Returns () (l\<lparr>m_size := m_size l - 1\<rparr>, h1)"
    and w: "well_formed h1 (l\<lparr>m_size := m_size l - 1\<rparr>) as (butlast xs)"
    and o: "offers h1 = offers h"
    and f: "\<forall>y. y \<notin> set (m_end l # as @ [a]) \<longrightarrow> cells h1 y = cells h y"
    by auto
  from snoc.IH [OF w] obtain h2 where
    q: "pop_back_all (l\<lparr>m_size := m_size l - 1\<rparr>, h1) = Returns () (l\<lparr>m_size := 0\<rparr>, h2)"
    and w2: "well_formed h2 (l\<lparr>m_size := 0\<rparr>) [] []"
    and o2: "offers h2 = offers h1"
    and f2: "\<forall>y. y \<notin> set (m_end l # as) \<longrightarrow> cells h2 y = cells h1 y"
    by auto
  have "pop_back_all (l, h) = Returns () (l\<lparr>m_size := 0\<rparr>, h2)"
    using nz p q by (subst pop_back_all.simps) (simp add: IsEmpty_def)
  moreover have "\<forall>y. y \<notin> set (m_end l # as @ [a]) \<longrightarrow> cells h2 y = cells h y"
    using f f2 by simp
  ultimately show ?case using w2 o o2 by simp
qed

lemma pop_front_all_clear:
  assumes "well_formed h l as xs"
  shows "\<exists>h1. pop_front_all (l, h) = Returns () (l\<lparr>m_size := 0\<rparr>, h1) \<and>
           well_formed h1 (l\<lparr>m_size := 0\<rparr>) [] [] \<and> offers h1 = offers h \<and>
           (\<forall>y. y \<notin> set (m_end l # as) \<longrightarrow> cells h1 y = cells h y)"
  using assms
proof (induction as arbitrary: l h xs)
  case Nil
  then have z: "m_size l = 0" by (simp add: well_formed_def unat_eq_0)
  have "xs = []" using well_formed_length [OF Nil] by simp
  then show ?case
    using Nil z by (subst pop_front_all.simps) (simp add: IsEmpty_def size_zero_update)
next
  case (Cons a as)
  have ne: "a # as \<noteq> []" by simp
  from Cons.prems have nz: "m_size l \<noteq> 0" by (auto simp: well_formed_def)
  from PopFront_step [OF Cons.prems ne] obtain h1 where
    p: "PopFront (l, h) = Returns () (l\<lparr>m_size := m_size l - 1\<rparr>, h1)"
    and w: "well_formed h1 (l\<lparr>m_size := m_size l - 1\<rparr>) as (tl xs)"
    and o: "offers h1 = offers h"
    and f: "\<forall>y. y \<notin> set (m_end l # a # as) \<longrightarrow> cells h1 y = cells h y"
    by auto
  from Cons.IH [OF w] obtain h2 where
    q: "pop_front_all (l\<lparr>m_size := m_size l - 1\<rparr>, h1) = Returns () (l\<lparr>m_size := 0\<rparr>, h2)"
    and w2: "well_formed h2 (l\<lparr>m_size := 0\<rparr>) [] []"
    and o2: "offers h2 = offers h1"
    and f2: "\<forall>y. y \<notin> set (m_end l # as) \<longrightarrow> cells h2 y = cells h1 y"
    by auto
  have "pop_front_all (l, h) = Returns () (l\<lparr>m_size := 0\<rparr>, h2)"
    using nz p q by (subst pop_front_all.simps) (simp add: IsEmpty_def)
  moreover have "\<forall>y. y \<notin> set (m_end l # a # as) \<longrightarrow> cells h2 y = cells h y"
    using f f2 by simp
  ultimately show ?case using w2 o o2 by simp
qed

text \<open>One \<^verbatim>\<open>PushBack\<close> next to the ring of another list.\<close>

lemma PushBack_beside:
  assumes o: "ring h oe oas oxs" and wf: "well_formed h l as xs"
    and d: "set (oe # oas) \<inter> set (m_end l # as) = {}"
  shows "PushBack T x (l, h) \<noteq> Undefined \<and>
         (PushBack T x (l, h) = Returns u s1 \<longrightarrow>
            (\<exists>as'. well_formed (snd s1) (fst s1) as' (xs @ [x]) \<and> m_end (fst s1) = m_end l \<and>
                   set (oe # oas) \<inter> set (m_end l # as') = {}) \<and>
            ring (snd s1) oe oas oxs \<and> (\<forall>y\<in>set (oe # oas). cells (snd s1) y = cells h y))"
proof -
  have 1: "PushBack T x (l, h) \<noteq> Undefined" using PushBack_defined [OF wf] .
  have 2: "PushBack T x (l, h) = Returns u s1 \<longrightarrow>
            (\<exists>as'. well_formed (snd s1) (fst s1) as' (xs @ [x]) \<and> m_end (fst s1) = m_end l \<and>
                   set (oe # oas) \<inter> set (m_end l # as') = {}) \<and>
            ring (snd s1) oe oas oxs \<and> (\<forall>y\<in>set (oe # oas). cells (snd s1) y = cells h y)"
  proof
    assume r: "PushBack T x (l, h) = Returns u s1"
    from PushBack_step [OF wf r] obtain n where
      w: "well_formed (snd s1) (fst s1) (as @ [n]) (xs @ [x])" and n: "cells h n = None"
      and e: "m_end (fst s1) = m_end l"
      and f: "\<forall>y. y \<notin> set (m_end l # as) \<longrightarrow> y \<noteq> n \<longrightarrow> cells (snd s1) y = cells h y"
      by blast
    have live: "\<forall>y\<in>set (oe # oas). cells h y \<noteq> None" using ring_live [OF o] by blast
    then have nn: "n \<notin> set (oe # oas)" using n by blast
    have k: "\<forall>y\<in>set (oe # oas). cells (snd s1) y = cells h y"
    proof
      fix y assume y: "y \<in> set (oe # oas)"
      then have "y \<notin> set (m_end l # as)" using d by blast
      moreover have "y \<noteq> n" using y nn by blast
      ultimately show "cells (snd s1) y = cells h y" using f by blast
    qed
    have d1: "set (oe # oas) \<inter> set (m_end l # as @ [n]) = {}" using d nn by auto
    have "ring (snd s1) oe oas oxs" using ring_frame [OF o k] .
    then show "(\<exists>as'. well_formed (snd s1) (fst s1) as' (xs @ [x]) \<and> m_end (fst s1) = m_end l \<and>
                   set (oe # oas) \<inter> set (m_end l # as') = {}) \<and>
            ring (snd s1) oe oas oxs \<and> (\<forall>y\<in>set (oe # oas). cells (snd s1) y = cells h y)"
      using w e d1 k by blast
  qed
  show ?thesis using 1 2 by blast
qed

lemma copy_loop_ring:
  assumes "ring h oe oas oxs" and "well_formed h l as xs"
    and "set (oe # oas) \<inter> set (m_end l # as) = {}" and "i \<le> length oas"
  shows "\<exists>r. copy_loop T oe ((oas @ [oe]) ! i) (l, h) = Some r \<and> r \<noteq> Undefined \<and>
           (\<forall>u s1. r = Returns u s1 \<longrightarrow>
              (\<exists>as'. well_formed (snd s1) (fst s1) as' (xs @ drop i oxs) \<and>
                     set (oe # oas) \<inter> set (m_end (fst s1) # as') = {}) \<and>
              (\<forall>y\<in>set (oe # oas). cells (snd s1) y = cells h y))"
  using assms
proof (induction "length oas - i" arbitrary: i l h as xs)
  case 0
  then have i: "i = length oas" by simp
  have "length oxs = length oas" using ring_length [OF "0.prems"(1)] .
  then show ?case
    using i "0.prems"(2,3) by (subst copy_loop.simps) auto
next
  case (Suc k)
  then have i: "i < length oas" by simp
  note o = Suc.prems(1) and wf = Suc.prems(2) and d = Suc.prems(3)
  let ?b = "oas ! i"
  have len: "length oxs = length oas" using ring_length [OF o] .
  have b: "(oas @ [oe]) ! i = ?b" using i by (simp add: nth_append)
  have be: "?b \<noteq> oe" and v: "GetValue h ?b = Some (oxs ! i)"
    using ring_value_nth [OF o i] by simp_all
  have bm: "?b \<in> set (oe # oas)" using i by simp
  have nx: "GetNext h ?b = Some ((oas @ [oe]) ! Suc i)"
    using ring_next_cyc(1) [OF o, of i] i b by simp
  show ?case
  proof (cases "PushBack T (oxs ! i) (l, h)")
    case (Returns u1 s1)
    from PushBack_beside [OF o wf d, of T "oxs ! i" u1 s1] Returns obtain as1 where
      w1: "well_formed (snd s1) (fst s1) as1 (xs @ [oxs ! i])"
      and e1: "m_end (fst s1) = m_end l"
      and d1: "set (oe # oas) \<inter> set (m_end l # as1) = {}"
      and o1: "ring (snd s1) oe oas oxs"
      and k1: "\<forall>y\<in>set (oe # oas). cells (snd s1) y = cells h y"
      by blast
    have "cells (snd s1) ?b = cells h ?b" using k1 bm by blast
    then have nx1: "GetNext (snd s1) ?b = Some ((oas @ [oe]) ! Suc i)"
      using nx by (simp add: GetNext_def)
    have d1': "set (oe # oas) \<inter> set (m_end (fst s1) # as1) = {}" using d1 e1 by simp
    have k: "k = length oas - Suc i" using Suc.hyps(2) by simp
    have si: "Suc i \<le> length oas" using i by simp
    from Suc.hyps(1) [OF k o1 w1 d1' si] obtain r where
      r: "copy_loop T oe ((oas @ [oe]) ! Suc i) (fst s1, snd s1) = Some r" "r \<noteq> Undefined"
        "\<forall>u s2. r = Returns u s2 \<longrightarrow>
              (\<exists>as'. well_formed (snd s2) (fst s2) as' ((xs @ [oxs ! i]) @ drop (Suc i) oxs) \<and>
                     set (oe # oas) \<inter> set (m_end (fst s2) # as') = {}) \<and>
              (\<forall>y\<in>set (oe # oas). cells (snd s2) y = cells (snd s1) y)"
      by blast
    have dr: "(xs @ [oxs ! i]) @ drop (Suc i) oxs = xs @ drop i oxs"
      using i len by (simp add: Cons_nth_drop_Suc)
    have c: "copy_loop T oe ((oas @ [oe]) ! i) (l, h) = Some r"
      using b be v Returns nx1 r(1) by (subst copy_loop.simps) simp
    have "\<forall>u s2. r = Returns u s2 \<longrightarrow>
              (\<exists>as'. well_formed (snd s2) (fst s2) as' (xs @ drop i oxs) \<and>
                     set (oe # oas) \<inter> set (m_end (fst s2) # as') = {}) \<and>
              (\<forall>y\<in>set (oe # oas). cells (snd s2) y = cells h y)"
      using r(3) dr k1 by simp
    then show ?thesis using c r(2) by blast
  next
    case (Throws sg s1)
    have "copy_loop T oe ((oas @ [oe]) ! i) (l, h) = Some (Throws sg s1)"
      using b be v Throws by (subst copy_loop.simps) simp
    then show ?thesis by simp
  next
    case Terminates
    have "copy_loop T oe ((oas @ [oe]) ! i) (l, h) = Some Terminates"
      using b be v Terminates by (subst copy_loop.simps) simp
    then show ?thesis by simp
  next
    case Undefined
    then show ?thesis using PushBack_beside [OF o wf d, of T "oxs ! i"] by simp
  qed
qed

subsection \<open>Copy construction\<close>

lemma List_ctor_defined: "List_ctor h \<noteq> Undefined \<and> List_ctor h \<noteq> Terminates"
proof (cases "new_ListNode h")
  case (Returns n h1)
  from new_ListNode_Returns [OF Returns] self_link_ring [of n h1 h] obtain h2 where
    "self_link h1 n = Some h2" by blast
  then show ?thesis using Returns by (simp add: List_ctor_def)
next
  case (Throws sg h1)
  then show ?thesis by (simp add: List_ctor_def)
next
  case Terminates
  then show ?thesis using new_ListNode_defined(2) [of h] by simp
next
  case Undefined
  then show ?thesis using new_ListNode_defined(1) [of h] by simp
qed

lemma List_copy_ctor_ring:
  assumes wf: "well_formed h other oas oxs"
  shows "\<exists>r. List_copy_ctor T other h = Some r \<and> r \<noteq> Undefined \<and>
           (\<forall>this h1. r = Returns this h1 \<longrightarrow>
              (\<exists>as. well_formed h1 this as oxs \<and>
                    set (m_end other # oas) \<inter> set (m_end this # as) = {}) \<and>
              (\<forall>y\<in>set (m_end other # oas). cells h1 y = cells h y))"
proof (cases "List_ctor h")
  case (Returns this h1)
  let ?oe = "m_end other"
  from wf have o: "ring h ?oe oas oxs" by (simp add: well_formed_def)
  from List_ctor_Returns [OF Returns] have w: "well_formed h1 this [] []"
    and fr: "cells h (m_end this) = None"
    and k: "\<forall>y. y \<noteq> m_end this \<longrightarrow> cells h1 y = cells h y"
    by simp_all
  have live: "\<forall>y\<in>set (?oe # oas). cells h y \<noteq> None" using ring_live [OF o] by blast
  then have nn: "m_end this \<notin> set (?oe # oas)" using fr by blast
  then have k1: "\<forall>y\<in>set (?oe # oas). cells h1 y = cells h y" using k by metis
  have o1: "ring h1 ?oe oas oxs" using ring_frame [OF o k1] .
  have d: "set (?oe # oas) \<inter> set (m_end this # []) = {}" using nn by simp
  from o1 have "links h1 ?oe oas ?oe" by (simp add: ring_def)
  from links_next_hd [OF this] have nx: "GetNext h1 ?oe = Some ((oas @ [?oe]) ! 0)"
    by (simp add: hd_conv_nth)
  from copy_loop_ring [OF o1 w d, of 0 T] obtain r where
    r: "copy_loop T ?oe ((oas @ [?oe]) ! 0) (this, h1) = Some r" "r \<noteq> Undefined"
      "\<forall>u s1. r = Returns u s1 \<longrightarrow>
              (\<exists>as'. well_formed (snd s1) (fst s1) as' ([] @ drop 0 oxs) \<and>
                     set (?oe # oas) \<inter> set (m_end (fst s1) # as') = {}) \<and>
              (\<forall>y\<in>set (?oe # oas). cells (snd s1) y = cells h1 y)"
    by auto
  show ?thesis
  proof (cases r)
    case (Returns u s1) note rr = this
    have c: "List_copy_ctor T other h = Some (Returns (fst s1) (snd s1))"
      using \<open>List_ctor h = Returns this h1\<close> nx r(1) rr by (simp add: List_copy_ctor_def)
    from r(3) rr obtain as' where
      "well_formed (snd s1) (fst s1) as' oxs"
      "set (?oe # oas) \<inter> set (m_end (fst s1) # as') = {}"
      "\<forall>y\<in>set (?oe # oas). cells (snd s1) y = cells h1 y"
      by auto
    then show ?thesis using c k1 by auto
  next
    case (Throws sg s1)
    then have "List_copy_ctor T other h = Some (Throws sg (snd s1))"
      using \<open>List_ctor h = Returns this h1\<close> nx r(1) by (simp add: List_copy_ctor_def)
    then show ?thesis by simp
  next
    case Terminates
    then have "List_copy_ctor T other h = Some Terminates"
      using \<open>List_ctor h = Returns this h1\<close> nx r(1) by (simp add: List_copy_ctor_def)
    then show ?thesis by simp
  next
    case Undefined
    then show ?thesis using r(2) by simp
  qed
next
  case (Throws sg h1)
  then show ?thesis by (simp add: List_copy_ctor_def)
next
  case Terminates
  then show ?thesis by (simp add: List_copy_ctor_def)
next
  case Undefined
  then show ?thesis using List_ctor_defined [of h] by simp
qed

subsection \<open>Moves\<close>

lemma new_nothrow_ListNode_effect:
  assumes "new_nothrow_ListNode h = (e, h1)"
  shows "offers h1 = tl (offers h)"
    and "e \<noteq> 0 \<Longrightarrow> cells h e = None \<and>
           cells h1 = (cells h)(e \<mapsto> \<lparr>m_prev = 0, m_next = 0, m_value = None\<rparr>)"
    and "e = 0 \<Longrightarrow> cells h1 = cells h"
proof -
  obtain a h0 where o: "operator_new h = (a, h0)" by (cases "operator_new h")
  note f = operator_new_effect [OF o]
  from assms o have e: "e = a" by (auto simp: new_nothrow_ListNode_def split: if_splits)
  from assms o have h1: "a \<noteq> 0 \<Longrightarrow>
      h1 = h0\<lparr>cells := (cells h0)(a \<mapsto> \<lparr>m_prev = 0, m_next = 0, m_value = None\<rparr>)\<rparr>"
    and h1': "a = 0 \<Longrightarrow> h1 = h0"
    by (auto simp: new_nothrow_ListNode_def split: if_splits)
  show "offers h1 = tl (offers h)" using h1 h1' f(3) by (cases "a = 0") simp_all
  show "e \<noteq> 0 \<Longrightarrow> cells h e = None \<and>
           cells h1 = (cells h)(e \<mapsto> \<lparr>m_prev = 0, m_next = 0, m_value = None\<rparr>)"
    using e h1 f(1,2) by simp
  show "e = 0 \<Longrightarrow> cells h1 = cells h" using e h1' f(1) by simp
qed

lemma List_move_ctor_effect:
  assumes wf: "well_formed h other as xs"
  shows "\<exists>this other1 h1. List_move_ctor (other, h) = Returns this (other1, h1) \<and>
           m_end this = m_end other \<and> well_formed h1 this as xs \<and> m_size other1 = 0 \<and>
           (\<forall>y\<in>set (m_end other # as). cells h1 y = cells h y) \<and>
           (m_end other1 \<noteq> 0 \<longrightarrow> well_formed h1 other1 [] [] \<and>
              (\<forall>y. y \<noteq> m_end other1 \<longrightarrow> cells h1 y = cells h y)) \<and>
           (m_end other1 = 0 \<longrightarrow> cells h1 = cells h)"
proof -
  let ?new = "\<lparr>m_end = m_end other, m_size = m_size other\<rparr>"
  from wf have r: "ring h (m_end other) as xs" and sz: "unat (m_size other) = length as"
    by (simp_all add: well_formed_def)
  have live: "\<forall>y\<in>set (m_end other # as). cells h y \<noteq> None" using ring_live [OF r] by blast
  show ?thesis
  proof (cases "new_ListNode h")
    case (Returns e h1)
    note f = new_ListNode_Returns [OF Returns]
    from f self_link_ring [of e h1 h] obtain h2 where
      h2: "self_link h1 e = Some h2" "ring h2 e [] []"
        "\<forall>y. y \<noteq> e \<longrightarrow> cells h2 y = cells h y"
      by blast
    have "e \<notin> set (m_end other # as)" using live f by blast
    then have k: "\<forall>y\<in>set (m_end other # as). cells h2 y = cells h y" using h2(3) by metis
    have "ring h2 (m_end other) as xs" using ring_frame [OF r k] .
    then have w: "well_formed h2 ?new as xs" using sz by (simp add: well_formed_def)
    have "List_move_ctor (other, h) = Returns ?new (other\<lparr>m_end := e, m_size := 0\<rparr>, h2)"
      using Returns h2(1) by (simp add: List_move_ctor_def)
    moreover have "well_formed h2 (other\<lparr>m_end := e, m_size := 0\<rparr>) [] []"
      using h2(2) by (simp add: well_formed_def)
    ultimately show ?thesis using w k h2(3) f by auto
  next
    case (Throws sg h1)
    note f = new_ListNode_Throws [OF Throws]
    then have k: "\<forall>y\<in>set (m_end other # as). cells h1 y = cells h y" by simp
    have "ring h1 (m_end other) as xs" using ring_frame [OF r k] .
    then have w: "well_formed h1 ?new as xs" using sz by (simp add: well_formed_def)
    have "List_move_ctor (other, h) = Returns ?new (other\<lparr>m_end := 0, m_size := 0\<rparr>, h1)"
      using Throws by (simp add: List_move_ctor_def)
    then show ?thesis using w k f by auto
  next
    case Terminates
    then show ?thesis using new_ListNode_defined(2) [of h] by simp
  next
    case Undefined
    then show ?thesis using new_ListNode_defined(1) [of h] by simp
  qed
qed

lemma move_assign_effect:
  assumes wd: "well_formed h dst bs ys" and wo: "well_formed h other as xs"
    and d: "set (m_end dst # bs) \<inter> set (m_end other # as) = {}" and ne: "this_p \<noteq> other_p"
  shows "\<exists>dst1 other1 h1. move_assign this_p other_p ((dst, other), h) =
             Returns () ((dst1, other1), h1) \<and>
           m_end dst1 = m_end other \<and> well_formed h1 dst1 as xs \<and>
           (\<forall>y\<in>set (m_end other # as). cells h1 y = cells h y) \<and>
           (m_end other1 \<noteq> 0 \<longrightarrow> well_formed h1 other1 [] []) \<and>
           (m_end other1 = 0 \<longrightarrow> other1 = other\<lparr>m_end := 0\<rparr>)"
proof -
  let ?S = "set (m_end other # as)"
  let ?dst1 = "dst\<lparr>m_size := 0, m_end := m_end other, m_size := m_size other\<rparr>"
  from wo have r: "ring h (m_end other) as xs" and sz: "unat (m_size other) = length as"
    by (simp_all add: well_formed_def)
  from pop_back_all_clear [OF wd] obtain h1 where
    p: "pop_back_all (dst, h) = Returns () (dst\<lparr>m_size := 0\<rparr>, h1)"
    and w1: "well_formed h1 (dst\<lparr>m_size := 0\<rparr>) [] []"
    and f1: "\<forall>y. y \<notin> set (m_end dst # bs) \<longrightarrow> cells h1 y = cells h y"
    by blast
  have k1: "\<forall>y\<in>?S. cells h1 y = cells h y" using f1 d by blast
  from w1 have r1: "ring h1 (m_end dst) [] []" by (simp add: well_formed_def)
  then have e0: "m_end dst \<noteq> 0" by (simp add: ring_def)
  have el: "cells h1 (m_end dst) \<noteq> None" using ring_live [OF r1, of "m_end dst"] by simp
  from delete_effect [OF el e0] obtain h2 where
    h2: "delete h1 (m_end dst) = Some h2" "cells h2 = (cells h1)(m_end dst := None)"
    by blast
  have "m_end dst \<notin> ?S" using d by auto
  then have k2: "\<forall>y\<in>?S. cells h2 y = cells h y" using k1 h2(2) by auto
  have live2: "\<forall>y\<in>?S. cells h2 y \<noteq> None" using ring_live [OF r] k2 by metis
  obtain e h3 where n: "new_nothrow_ListNode h2 = (e, h3)" by (cases "new_nothrow_ListNode h2")
  note f = new_nothrow_ListNode_effect [OF n]
  show ?thesis
  proof (cases "e = 0")
    case True
    have k3: "\<forall>y\<in>?S. cells h3 y = cells h y" using k2 f(3) [OF True] by simp
    have "ring h3 (m_end other) as xs" using ring_frame [OF r k3] .
    then have w: "well_formed h3 ?dst1 as xs" using sz by (simp add: well_formed_def)
    have "move_assign this_p other_p ((dst, other), h) =
        Returns () ((?dst1, other\<lparr>m_end := 0\<rparr>), h3)"
      using ne p h2(1) n True by (simp add: move_assign_def)
    then show ?thesis using w k3 by auto
  next
    case False
    from f(2) [OF False] self_link_ring [OF False, of h3 h2] obtain h4 where
      h4: "self_link h3 e = Some h4" "ring h4 e [] []"
        "\<forall>y. y \<noteq> e \<longrightarrow> cells h4 y = cells h2 y"
      by blast
    have "e \<notin> ?S" using live2 f(2) [OF False] by blast
    then have k4: "\<forall>y\<in>?S. cells h4 y = cells h y" using h4(3) k2 by metis
    have "ring h4 (m_end other) as xs" using ring_frame [OF r k4] .
    then have w: "well_formed h4 ?dst1 as xs" using sz by (simp add: well_formed_def)
    have "move_assign this_p other_p ((dst, other), h) =
        Returns () ((?dst1, other\<lparr>m_end := e, m_size := 0\<rparr>), h4)"
      using ne p h2(1) n False h4(1) by (simp add: move_assign_def)
    moreover have "well_formed h4 (other\<lparr>m_end := e, m_size := 0\<rparr>) [] []"
      using h4(2) by (simp add: well_formed_def)
    ultimately show ?thesis using w k4 False by auto
  qed
qed

lemma empty_list_facts:
  assumes "well_formed h l [] []"
  shows "IsEmpty l \<and> Size l = 0 \<and> traverse h l = Some (Returns [] (End l))"
  using assms traverse_ring [of h l "[]" "[]"]
  by (simp add: well_formed_def IsEmpty_def Size_def unat_eq_0)

subsection \<open>Copy assignment, and the links of a ring\<close>

lemma assign_loop_ring:
  assumes "ring h (m_end other) oas oxs" and "well_formed h l as xs"
    and "set (m_end other # oas) \<inter> set (m_end l # as) = {}" and "i \<le> length oas"
  shows "\<exists>r. assign_loop T other (Iterator ((oas @ [m_end other]) ! i)) (l, h) = Some r \<and>
           r \<noteq> Undefined \<and>
           (\<forall>u s1. r = Returns u s1 \<longrightarrow>
              (\<exists>as'. well_formed (snd s1) (fst s1) as' (xs @ drop i oxs) \<and>
                     set (m_end other # oas) \<inter> set (m_end (fst s1) # as') = {}) \<and>
              (\<forall>y\<in>set (m_end other # oas). cells (snd s1) y = cells h y))"
  using assms
proof (induction "length oas - i" arbitrary: i l h as xs)
  case 0
  then have i: "i = length oas" by simp
  have "length oxs = length oas" using ring_length [OF "0.prems"(1)] .
  then show ?case
    using i "0.prems"(2,3) by (subst assign_loop.simps) (auto simp: iter_neq_def End_def)
next
  case (Suc k)
  then have i: "i < length oas" by simp
  note o = Suc.prems(1) and wf = Suc.prems(2) and d = Suc.prems(3)
  let ?oe = "m_end other"
  let ?b = "oas ! i"
  have len: "length oxs = length oas" using ring_length [OF o] .
  have b: "(oas @ [?oe]) ! i = ?b" using i by (simp add: nth_append)
  have be: "?b \<noteq> ?oe" and b0: "?b \<noteq> 0" and v: "GetValue h ?b = Some (oxs ! i)"
    using ring_value_nth [OF o i] by simp_all
  have bm: "?b \<in> set (?oe # oas)" using i by simp
  have nx: "GetNext h ?b = Some ((oas @ [?oe]) ! Suc i)"
    using ring_next_cyc(1) [OF o, of i] i b by simp
  have dr: "deref h (Iterator ?b) = Returns (oxs ! i) (Iterator ?b)"
    using b0 v by (simp add: deref_def)
  have nq: "iter_neq (Iterator ?b) (End other)" using be by (simp add: iter_neq_def End_def)
  show ?case
  proof (cases "PushBack T (oxs ! i) (l, h)")
    case (Returns u1 s1)
    from PushBack_beside [OF o wf d, of T "oxs ! i" u1 s1] Returns obtain as1 where
      w1: "well_formed (snd s1) (fst s1) as1 (xs @ [oxs ! i])"
      and e1: "m_end (fst s1) = m_end l"
      and d1: "set (?oe # oas) \<inter> set (m_end l # as1) = {}"
      and o1: "ring (snd s1) ?oe oas oxs"
      and k1: "\<forall>y\<in>set (?oe # oas). cells (snd s1) y = cells h y"
      by blast
    have "cells (snd s1) ?b = cells h ?b" using k1 bm by blast
    then have "GetNext (snd s1) ?b = Some ((oas @ [?oe]) ! Suc i)"
      using nx by (simp add: GetNext_def)
    then have inc: "pre_increment (snd s1) (Iterator ?b) =
        Returns () (Iterator ((oas @ [?oe]) ! Suc i))"
      using b0 by (simp add: pre_increment_def)
    have d1': "set (?oe # oas) \<inter> set (m_end (fst s1) # as1) = {}" using d1 e1 by simp
    have k: "k = length oas - Suc i" using Suc.hyps(2) by simp
    have si: "Suc i \<le> length oas" using i by simp
    from Suc.hyps(1) [OF k o1 w1 d1' si] obtain r where
      r: "assign_loop T other (Iterator ((oas @ [?oe]) ! Suc i)) (fst s1, snd s1) = Some r"
        "r \<noteq> Undefined"
        "\<forall>u s2. r = Returns u s2 \<longrightarrow>
              (\<exists>as'. well_formed (snd s2) (fst s2) as' ((xs @ [oxs ! i]) @ drop (Suc i) oxs) \<and>
                     set (?oe # oas) \<inter> set (m_end (fst s2) # as') = {}) \<and>
              (\<forall>y\<in>set (?oe # oas). cells (snd s2) y = cells (snd s1) y)"
      by blast
    have dx: "(xs @ [oxs ! i]) @ drop (Suc i) oxs = xs @ drop i oxs"
      using i len by (simp add: Cons_nth_drop_Suc)
    have c: "assign_loop T other (Iterator ((oas @ [?oe]) ! i)) (l, h) = Some r"
      using b nq dr Returns inc r(1) by (subst assign_loop.simps) simp
    have "\<forall>u s2. r = Returns u s2 \<longrightarrow>
              (\<exists>as'. well_formed (snd s2) (fst s2) as' (xs @ drop i oxs) \<and>
                     set (?oe # oas) \<inter> set (m_end (fst s2) # as') = {}) \<and>
              (\<forall>y\<in>set (?oe # oas). cells (snd s2) y = cells h y)"
      using r(3) dx k1 by simp
    then show ?thesis using c r(2) by blast
  next
    case (Throws sg s1)
    have "assign_loop T other (Iterator ((oas @ [?oe]) ! i)) (l, h) = Some (Throws sg s1)"
      using b nq dr Throws by (subst assign_loop.simps) simp
    then show ?thesis by simp
  next
    case Terminates
    have "assign_loop T other (Iterator ((oas @ [?oe]) ! i)) (l, h) = Some Terminates"
      using b nq dr Terminates by (subst assign_loop.simps) simp
    then show ?thesis by simp
  next
    case Undefined
    then show ?thesis using PushBack_beside [OF o wf d, of T "oxs ! i"] by simp
  qed
qed

lemma copy_assign_ring:
  assumes wd: "well_formed h dst bs ys" and wo: "well_formed h other as xs"
    and d: "set (m_end dst # bs) \<inter> set (m_end other # as) = {}" and ne: "this_p \<noteq> other_p"
  shows "\<exists>r. copy_assign T this_p other_p ((dst, other), h) = Some r \<and> r \<noteq> Undefined \<and>
           (\<forall>u dst1 other1 h1. r = Returns u ((dst1, other1), h1) \<longrightarrow>
              other1 = other \<and> (\<exists>bs1. well_formed h1 dst1 bs1 xs) \<and> well_formed h1 other as xs)"
proof -
  let ?S = "set (m_end other # as)"
  let ?oe = "m_end other"
  from wo have r: "ring h ?oe as xs" and sz: "unat (m_size other) = length as"
    by (simp_all add: well_formed_def)
  from pop_back_all_clear [OF wd] obtain h1 where
    p: "pop_back_all (dst, h) = Returns () (dst\<lparr>m_size := 0\<rparr>, h1)"
    and w1: "well_formed h1 (dst\<lparr>m_size := 0\<rparr>) [] []"
    and f1: "\<forall>y. y \<notin> set (m_end dst # bs) \<longrightarrow> cells h1 y = cells h y"
    by blast
  have k1: "\<forall>y\<in>?S. cells h1 y = cells h y" using f1 d by blast
  have r1: "ring h1 ?oe as xs" using ring_frame [OF r k1] .
  then have "links h1 ?oe as ?oe" by (simp add: ring_def)
  from links_next_hd [OF this] have bg: "Begin h1 other = Some (Iterator ((as @ [?oe]) ! 0))"
    by (simp add: Begin_def hd_conv_nth)
  have d1: "?S \<inter> set (m_end (dst\<lparr>m_size := 0\<rparr>) # []) = {}" using d by auto
  from assign_loop_ring [OF r1 w1 d1, of 0 T] obtain r2 where
    r2: "assign_loop T other (Iterator ((as @ [?oe]) ! 0)) (dst\<lparr>m_size := 0\<rparr>, h1) = Some r2"
      "r2 \<noteq> Undefined"
      "\<forall>u s1. r2 = Returns u s1 \<longrightarrow>
          (\<exists>as'. well_formed (snd s1) (fst s1) as' ([] @ drop 0 xs) \<and>
                 ?S \<inter> set (m_end (fst s1) # as') = {}) \<and>
          (\<forall>y\<in>?S. cells (snd s1) y = cells h1 y)"
    by auto
  show ?thesis
  proof (cases r2)
    case (Returns u s1)
    with r2(3) obtain bs1 where w: "well_formed (snd s1) (fst s1) bs1 xs"
      and k2: "\<forall>y\<in>?S. cells (snd s1) y = cells h1 y"
      by auto
    have "\<forall>y\<in>?S. cells (snd s1) y = cells h y" using k1 k2 by simp
    from ring_frame [OF r this] have wo2: "well_formed (snd s1) other as xs"
      using sz by (simp add: well_formed_def)
    have "copy_assign T this_p other_p ((dst, other), h) =
        Some (Returns () ((fst s1, other), snd s1))"
      using ne p bg r2(1) Returns by (simp add: copy_assign_def)
    then show ?thesis using w wo2 by auto
  next
    case (Throws sg s1)
    then have "copy_assign T this_p other_p ((dst, other), h) =
        Some (Throws sg ((fst s1, other), snd s1))"
      using ne p bg r2(1) by (simp add: copy_assign_def)
    then show ?thesis by simp
  next
    case Terminates
    then have "copy_assign T this_p other_p ((dst, other), h) = Some Terminates"
      using ne p bg r2(1) by (simp add: copy_assign_def)
    then show ?thesis by simp
  next
    case Undefined
    then show ?thesis using r2(2) by simp
  qed
qed

lemma links_nth:
  assumes "links h p as q" and "j \<le> length as"
  shows "GetNext h ((p # as) ! j) = Some ((as @ [q]) ! j) \<and>
         GetPrev h ((as @ [q]) ! j) = Some ((p # as) ! j)"
  using assms
proof (induction as arbitrary: p j)
  case Nil
  then show ?case by simp
next
  case (Cons a as)
  show ?case
  proof (cases j)
    case 0
    then show ?thesis using Cons.prems(1) by simp
  next
    case (Suc j1)
    then show ?thesis using Cons.IH [of a j1] Cons.prems by simp
  qed
qed

lemma ring_linked_back:
  assumes "ring h e as xs" and "n \<in> set (e # as)"
  shows "linked_back h n"
proof -
  from assms(1) have l: "links h e as e" by (simp add: ring_def)
  from assms(2) obtain i where i: "i \<le> length as" and n: "n = (e # as) ! i"
    by (metis in_set_conv_nth length_Cons less_Suc_eq_le)
  note c = links_nth [OF l]
  have fwd: "obind (GetNext h n) (GetPrev h) = Some n"
    using c [OF i] n by (simp add: obind_def)
  have bwd: "obind (GetPrev h n) (GetNext h) = Some n"
  proof (cases i)
    case 0
    then have "n = (as @ [e]) ! length as" using n by simp
    then show ?thesis using c [of "length as"] by (simp add: obind_def)
  next
    case (Suc j)
    then have j: "j \<le> length as" and "n = (as @ [e]) ! j"
      using i n by (simp_all add: nth_append)
    then show ?thesis using c [OF j] by (simp add: obind_def)
  qed
  show ?thesis using fwd bwd by (simp add: linked_back_def)
qed

lemma push_bad_alloc:
  assumes "fst (operator_new h) = 0"
  shows "push (new_TNode T x) anchor (l, h) = Throws bad_alloc (l, snd (operator_new h))"
    and "push (new_TNode_move T x) anchor (l, h) = Throws bad_alloc (l, snd (operator_new h))"
  using assms
  by (cases "operator_new h"; simp add: push_def new_TNode_def new_TNode_move_def delete_def)+

lemma push_copy_throws:
  assumes "fst (operator_new h) \<noteq> 0" and "copy_throws T x"
  shows "push (new_TNode T x) anchor (l, h) = Throws element_exception (l, snd (operator_new h))"
  using assms
  by (cases "operator_new h") (auto simp: push_def new_TNode_def delete_def)

lemma push_move_throws:
  assumes "fst (operator_new h) \<noteq> 0" and "move_throws T x"
  shows "push (new_TNode_move T x) anchor (l, h) = Terminates"
  using assms
  by (cases "operator_new h") (auto simp: push_def new_TNode_move_def)

lemma push_Throws_unchanged:
  assumes "fresh = new_TNode T x \<or> fresh = new_TNode_move T x"
    and "push fresh anchor (l, h) = Throws sg s1"
  shows "fst s1 = l \<and> cells (snd s1) = cells h"
proof -
  have "\<And>sg h1. fresh h = Throws sg h1 \<Longrightarrow> cells h1 = cells h \<and> offers h1 = tl (offers h)"
    using assms(1) new_TNode_Throws new_TNode_move_Throws by metis
  from push_Throws [of fresh h, OF this assms(2)] show ?thesis by simp
qed

lemma apply_mutation_Throws:
  assumes wf: "well_formed h l as xs" and m: "model_mutation c xs = Some ys"
    and res: "apply_mutation T c (l, h) = Throws sg s1"
  shows "well_formed (snd s1) (fst s1) as xs"
proof -
  have push: "\<And>fresh anchor x. fresh = new_TNode T x \<or> fresh = new_TNode_move T x \<Longrightarrow>
      push fresh anchor (l, h) = Throws sg s1 \<Longrightarrow> well_formed (snd s1) (fst s1) as xs"
  proof -
    fix fresh anchor x
    assume "fresh = new_TNode T x \<or> fresh = new_TNode_move T x"
      and "push fresh anchor (l, h) = Throws sg s1"
    from push_Throws_unchanged [OF this] have "fst s1 = l" "cells (snd s1) = cells h" by simp_all
    moreover from wf have "ring h (m_end l) as xs" "unat (m_size l) = length as"
      by (simp_all add: well_formed_def)
    ultimately show "well_formed (snd s1) (fst s1) as xs"
      using ring_frame [of h "m_end l" as xs "snd s1"] by (simp add: well_formed_def)
  qed
  show ?thesis
  proof (cases c)
    case (Op c1)
    show ?thesis
    proof (cases c1)
      case (OpPushBack x)
      then show ?thesis using res Op push [of "new_TNode T x" x] by (simp add: PushBack_def)
    next
      case (OpPushBackMove x)
      then show ?thesis using res Op push [of "new_TNode_move T x" x]
        by (simp add: PushBack_move_def)
    next
      case (OpPushFront x)
      then show ?thesis using res Op push [of "new_TNode T x" x] by (simp add: PushFront_def)
    next
      case (OpPushFrontMove x)
      then show ?thesis using res Op push [of "new_TNode_move T x" x]
        by (simp add: PushFront_move_def)
    next
      case OpPopBack
      then show ?thesis using res Op by (simp add: PopBack_def split: option.splits)
    next
      case OpPopFront
      then show ?thesis using res Op by (simp add: PopFront_def split: option.splits)
    qed
  next
    case (EraseAt k)
    let ?j = "k mod Suc (length as)"
    from wf have r: "ring h (m_end l) as xs" by (simp add: well_formed_def)
    then have l: "links h (m_end l) as (m_end l)" by (simp add: ring_def)
    have b: "Begin h l = Some (Iterator ((as @ [m_end l]) ! 0))"
      using links_next_hd [OF l] by (simp add: Begin_def hd_conv_nth)
    have a: "advance h k (Iterator ((as @ [m_end l]) ! 0)) =
        Returns () (Iterator ((as @ [m_end l]) ! ?j))"
      using advance_ring [OF r, of 0 k] by simp
    have j: "?j \<le> length as" using mod_less_divisor [of "Suc (length as)" k] by simp
    from Erase_at_step [OF wf j] obtain l1 h1 where
      "Erase (Iterator ((as @ [m_end l]) ! ?j)) (l, h) = Returns () (l1, h1)" by blast
    then show ?thesis using EraseAt b a res by simp
  qed
qed

subsection \<open>Runs that are served, runs that throw\<close>

lemma List_ctor_served:
  assumes g: "good_offers h" and o: "offers h = a # rest"
  shows "\<exists>l1 h1. List_ctor h = Returns l1 h1 \<and> good_offers h1 \<and> offers h1 = rest"
proof -
  let ?h1 = "h\<lparr>offers := rest, cells := (cells h)(a \<mapsto> \<lparr>m_prev = 0, m_next = 0, m_value = None\<rparr>)\<rparr>"
  from g o have a0: "a \<noteq> 0" and dr: "a \<notin> set rest" "distinct rest" "0 \<notin> set rest"
    and fr: "\<forall>b\<in>set rest. cells h b = None"
    by (auto simp: good_offers_iff)
  have n: "new_ListNode h = Returns a ?h1" using new_ListNode_served [OF g o] .
  have c1: "cells ?h1 = (cells h)(a \<mapsto> \<lparr>m_prev = 0, m_next = 0, m_value = None\<rparr>)" by simp
  from self_link_ring [OF a0 c1] obtain h2 where
    h2: "self_link ?h1 a = Some h2" "offers h2 = offers ?h1"
      "\<forall>y. y \<noteq> a \<longrightarrow> cells h2 y = cells h y"
    by blast
  have "List_ctor h = Returns \<lparr>m_end = a, m_size = 0\<rparr> h2"
    using n h2(1) by (simp add: List_ctor_def)
  moreover have "\<forall>b\<in>set rest. cells h2 b = None" using fr dr(1) h2(3) by metis
  then have "good_offers h2" using dr h2(2) by (simp add: good_offers_iff)
  ultimately show ?thesis using h2(2) by simp
qed

lemma pushes_Cons: "pushes (c # cs) = (if is_push c then Suc (pushes cs) else pushes cs)"
  by (simp add: pushes_def)

lemma run_served:
  assumes "well_formed h l as xs" and "good_offers h" and "pushes cs \<le> length (offers h)"
    and "\<forall>c\<in>set cs. \<not> throws_on T c" and "model_run model_op cs xs = Some ys"
  shows "\<exists>s1. run (apply_op T) cs (l, h) = Returns () s1"
  using assms
proof (induction cs arbitrary: l h as xs)
  case Nil
  then show ?case by simp
next
  case (Cons c cs)
  from Cons.prems(5) obtain zs where c: "model_op c xs = Some zs"
    and cs: "model_run model_op cs zs = Some ys"
    by (auto split: option.splits)
  have nt: "\<not> throws_on T c" and nts: "\<forall>c\<in>set cs. \<not> throws_on T c"
    using Cons.prems(4) by simp_all
  have en: "is_push c \<longrightarrow> offers h \<noteq> []"
    using Cons.prems(3) by (auto simp: pushes_Cons)
  from apply_op_served [OF Cons.prems(1,2) c nt en] obtain s1 where
    a: "apply_op T c (l, h) = Returns () s1" and g1: "good_offers (snd s1)"
    and o1: "offers (snd s1) = (if is_push c then tl (offers h) else offers h)"
    by blast
  from apply_op_step [OF Cons.prems(1) c, of T "()" s1] a obtain as1 where
    w1: "well_formed (snd s1) (fst s1) as1 zs" by blast
  have p1: "pushes cs \<le> length (offers (snd s1))"
    using Cons.prems(3) o1 by (auto simp: pushes_Cons)
  from Cons.IH [OF w1 g1 p1 nts cs] obtain s2 where
    "run (apply_op T) cs (fst s1, snd s1) = Returns () s2" by blast
  then show ?case using a by simp
qed

lemma apply_op_Throws:
  assumes wf: "well_formed h l as xs" and m: "model_op c xs = Some ys"
    and res: "apply_op T c (l, h) = Throws sg s1"
  shows "is_push c \<and> sg \<in> {bad_alloc, element_exception} \<and> well_formed (snd s1) (fst s1) as xs"
proof -
  have w: "well_formed (snd s1) (fst s1) as xs"
    using apply_mutation_Throws [OF wf, of "Op c" ys T sg s1] m res by simp
  have copy: "\<And>anchor x. push (new_TNode T x) anchor (l, h) = Throws sg s1 \<Longrightarrow>
      sg \<in> {bad_alloc, element_exception}"
  proof -
    fix anchor x assume p: "push (new_TNode T x) anchor (l, h) = Throws sg s1"
    have "\<And>sg h1. new_TNode T x h = Throws sg h1 \<Longrightarrow> cells h1 = cells h \<and> offers h1 = tl (offers h)"
      using new_TNode_Throws [of T x h] by simp
    from push_Throws [where fresh = "new_TNode T x", OF this p]
    have "new_TNode T x h = Throws sg (snd s1)" by simp
    from new_TNode_Throws [OF this] show "sg \<in> {bad_alloc, element_exception}" by simp
  qed
  have move: "\<And>anchor x. push (new_TNode_move T x) anchor (l, h) = Throws sg s1 \<Longrightarrow>
      sg \<in> {bad_alloc, element_exception}"
  proof -
    fix anchor x assume p: "push (new_TNode_move T x) anchor (l, h) = Throws sg s1"
    have "\<And>sg h1. new_TNode_move T x h = Throws sg h1 \<Longrightarrow>
        cells h1 = cells h \<and> offers h1 = tl (offers h)"
      using new_TNode_move_Throws [of T x h] by simp
    from push_Throws [where fresh = "new_TNode_move T x", OF this p]
    have "new_TNode_move T x h = Throws sg (snd s1)" by simp
    from new_TNode_move_Throws [OF this] show "sg \<in> {bad_alloc, element_exception}" by simp
  qed
  show ?thesis
  proof (cases c)
    case (OpPushBack x)
    then show ?thesis using res w copy by (simp add: PushBack_def)
  next
    case (OpPushBackMove x)
    then show ?thesis using res w move by (simp add: PushBack_move_def)
  next
    case (OpPushFront x)
    then show ?thesis using res w copy by (simp add: PushFront_def)
  next
    case (OpPushFrontMove x)
    then show ?thesis using res w move by (simp add: PushFront_move_def)
  next
    case OpPopBack
    then show ?thesis using res by (simp add: PopBack_def split: option.splits)
  next
    case OpPopFront
    then show ?thesis using res by (simp add: PopFront_def split: option.splits)
  qed
qed

text \<open>
  A sequence that throws does so at an insertion, and leaves the list as the calls before
  that insertion made it.
\<close>

lemma run_Throws:
  assumes "well_formed h l as xs" and "model_run model_op cs xs = Some ys"
    and "run (apply_op T) cs (l, h) = Throws sg s1"
  shows "sg \<in> {bad_alloc, element_exception} \<and>
         (\<exists>k<length cs. is_push (cs ! k) \<and>
            (\<exists>zs as1. model_run model_op (take k cs) xs = Some zs \<and>
                      well_formed (snd s1) (fst s1) as1 zs))"
  using assms
proof (induction cs arbitrary: l h as xs)
  case Nil
  then show ?case by simp
next
  case (Cons c cs)
  from Cons.prems(2) obtain zs where c: "model_op c xs = Some zs"
    and cs: "model_run model_op cs zs = Some ys"
    by (auto split: option.splits)
  show ?case
  proof (cases "apply_op T c (l, h)")
    case (Returns u1 s2)
    from apply_op_step [OF Cons.prems(1) c, of T u1 s2] Returns obtain as2 where
      w2: "well_formed (snd s2) (fst s2) as2 zs" by blast
    have r: "run (apply_op T) cs (fst s2, snd s2) = Throws sg s1"
      using Cons.prems(3) Returns by simp
    from Cons.IH [OF w2 cs r] obtain k zs1 as1 where
      sg: "sg \<in> {bad_alloc, element_exception}" and k: "k < length cs" "is_push (cs ! k)"
        "model_run model_op (take k cs) zs = Some zs1" "well_formed (snd s1) (fst s1) as1 zs1"
      by blast
    have "Suc k < length (c # cs)" "is_push ((c # cs) ! Suc k)"
      "model_run model_op (take (Suc k) (c # cs)) xs = Some zs1"
      using k c by simp_all
    then show ?thesis using sg k(4) by blast
  next
    case (Throws sg1 s2)
    with Cons.prems(3) have e: "sg1 = sg" "s2 = s1" by simp_all
    from apply_op_Throws [OF Cons.prems(1) c, of T sg s1] Throws e
    have "is_push c" "sg \<in> {bad_alloc, element_exception}" "well_formed (snd s1) (fst s1) as xs"
      by simp_all
    moreover have "0 < length (c # cs)" "model_run model_op (take 0 (c # cs)) xs = Some xs"
      by simp_all
    ultimately show ?thesis by (intro conjI exI [of _ 0] exI [of _ xs] exI [of _ as]) simp_all
  next
    case Terminates
    then show ?thesis using Cons.prems(3) by simp
  next
    case Undefined
    then show ?thesis using Cons.prems(3) by simp
  qed
qed

text \<open>
  Only an insertion by move whose element's move constructor throws ends the program.
\<close>

lemma apply_op_Terminates:
  assumes "apply_op T c s = Terminates"
  shows "\<exists>x. (c = OpPushBackMove x \<or> c = OpPushFrontMove x) \<and> move_throws T x"
proof -
  obtain l h where s: "s = (l, h)" by (cases s)
  have copy: "\<And>x anchor. push (new_TNode T x) anchor (l, h) \<noteq> Terminates"
    by (auto simp: push_def new_TNode_def delete_def
        split: prod.splits outcome.splits option.splits if_splits)
  have move: "\<And>x anchor. push (new_TNode_move T x) anchor (l, h) = Terminates \<Longrightarrow>
      move_throws T x"
    by (auto simp: push_def new_TNode_move_def delete_def
        split: prod.splits outcome.splits option.splits if_splits)
  show ?thesis
  proof (cases c)
    case (OpPushBack x)
    then show ?thesis using assms s copy by (simp add: PushBack_def)
  next
    case (OpPushBackMove x)
    then show ?thesis using assms s move by (simp add: PushBack_move_def)
  next
    case (OpPushFront x)
    then show ?thesis using assms s copy by (simp add: PushFront_def)
  next
    case (OpPushFrontMove x)
    then show ?thesis using assms s move by (simp add: PushFront_move_def)
  next
    case OpPopBack
    then show ?thesis using assms s by (simp add: PopBack_def split: option.splits)
  next
    case OpPopFront
    then show ?thesis using assms s by (simp add: PopFront_def split: option.splits)
  qed
qed

lemma run_Terminates:
  assumes "run (apply_op T) cs s = Terminates"
  shows "\<exists>k<length cs. \<exists>x. (cs ! k = OpPushBackMove x \<or> cs ! k = OpPushFrontMove x) \<and>
           move_throws T x"
  using assms
proof (induction cs arbitrary: s)
  case Nil
  then show ?case by simp
next
  case (Cons c cs)
  show ?case
  proof (cases "apply_op T c s")
    case (Returns u1 s2)
    then have "run (apply_op T) cs s2 = Terminates" using Cons.prems by simp
    from Cons.IH [OF this] obtain k x where "k < length cs"
      "(cs ! k = OpPushBackMove x \<or> cs ! k = OpPushFrontMove x) \<and> move_throws T x"
      by blast
    then have "Suc k < length (c # cs)"
      "((c # cs) ! Suc k = OpPushBackMove x \<or> (c # cs) ! Suc k = OpPushFrontMove x) \<and>
       move_throws T x"
      by simp_all
    then show ?thesis by blast
  next
    case (Throws sg1 s2)
    then show ?thesis using Cons.prems by simp
  next
    case Terminates
    from apply_op_Terminates [OF this] obtain x where
      "(c = OpPushBackMove x \<or> c = OpPushFrontMove x) \<and> move_throws T x" by blast
    then have "0 < length (c # cs)"
      "((c # cs) ! 0 = OpPushBackMove x \<or> (c # cs) ! 0 = OpPushFrontMove x) \<and> move_throws T x"
      by simp_all
    then show ?thesis by blast
  next
    case Undefined
    then show ?thesis using Cons.prems by simp
  qed
qed

subsection \<open>Copies that throw\<close>

text \<open>
  A copy stops at the first \<^verbatim>\<open>PushBack\<close> that throws: the list being filled then
  holds the elements copied so far, and the source is as it was.
\<close>

lemma PushBack_not_Terminates: "PushBack T x s \<noteq> Terminates"
  by (cases s) (auto simp: PushBack_def push_def new_TNode_def delete_def
      split: prod.splits outcome.splits option.splits if_splits)

lemma PushBack_Throws:
  assumes wf: "well_formed h l as xs" and res: "PushBack T x (l, h) = Throws sg s1"
  shows "sg \<in> {bad_alloc, element_exception} \<and> fst s1 = l \<and> cells (snd s1) = cells h \<and>
         well_formed (snd s1) (fst s1) as xs"
proof -
  have m: "model_op (OpPushBack x) xs = Some (xs @ [x])" by simp
  have r: "apply_op T (OpPushBack x) (l, h) = Throws sg s1" using res by simp
  from apply_op_Throws [OF wf m r]
  have "sg \<in> {bad_alloc, element_exception}" "well_formed (snd s1) (fst s1) as xs" by simp_all
  moreover have "fst s1 = l \<and> cells (snd s1) = cells h"
    using push_Throws_unchanged [of "new_TNode T x" T x "\<lambda>h l. GetPrev h (m_end l)" l h sg s1] res
    by (simp add: PushBack_def)
  ultimately show ?thesis by simp
qed

lemma copy_loop_Throws:
  assumes "ring h oe oas oxs" and "well_formed h l as xs"
    and "set (oe # oas) \<inter> set (m_end l # as) = {}" and "i \<le> length oas"
    and "copy_loop T oe ((oas @ [oe]) ! i) (l, h) = Some r"
  shows "r \<noteq> Terminates \<and>
         (\<forall>sg s2. r = Throws sg s2 \<longrightarrow>
            sg \<in> {bad_alloc, element_exception} \<and>
            (\<exists>as' n. n < length oxs - i \<and>
               well_formed (snd s2) (fst s2) as' (xs @ take n (drop i oxs))) \<and>
            (\<forall>y\<in>set (oe # oas). cells (snd s2) y = cells h y))"
  using assms
proof (induction "length oas - i" arbitrary: i l h as xs)
  case 0
  then have i: "i = length oas" by simp
  have "copy_loop T oe ((oas @ [oe]) ! i) (l, h) = Some (Returns () (l, h))"
    using i by (subst copy_loop.simps) simp
  then show ?case using "0.prems"(5) by auto
next
  case (Suc k)
  then have i: "i < length oas" by simp
  note o = Suc.prems(1) and wf = Suc.prems(2) and d = Suc.prems(3) and c = Suc.prems(5)
  let ?b = "oas ! i"
  have len: "length oxs = length oas" using ring_length [OF o] .
  have b: "(oas @ [oe]) ! i = ?b" using i by (simp add: nth_append)
  have be: "?b \<noteq> oe" and v: "GetValue h ?b = Some (oxs ! i)"
    using ring_value_nth [OF o i] by simp_all
  have bm: "?b \<in> set (oe # oas)" using i by simp
  have nx: "GetNext h ?b = Some ((oas @ [oe]) ! Suc i)"
    using ring_next_cyc(1) [OF o, of i] i b by simp
  show ?case
  proof (cases "PushBack T (oxs ! i) (l, h)")
    case (Returns u1 s1)
    from PushBack_beside [OF o wf d, of T "oxs ! i" u1 s1] Returns obtain as1 where
      w1: "well_formed (snd s1) (fst s1) as1 (xs @ [oxs ! i])"
      and e1: "m_end (fst s1) = m_end l"
      and d1: "set (oe # oas) \<inter> set (m_end l # as1) = {}"
      and o1: "ring (snd s1) oe oas oxs"
      and k1: "\<forall>y\<in>set (oe # oas). cells (snd s1) y = cells h y"
      by blast
    have "cells (snd s1) ?b = cells h ?b" using k1 bm by blast
    then have nx1: "GetNext (snd s1) ?b = Some ((oas @ [oe]) ! Suc i)"
      using nx by (simp add: GetNext_def)
    have d1': "set (oe # oas) \<inter> set (m_end (fst s1) # as1) = {}" using d1 e1 by simp
    have k: "k = length oas - Suc i" using Suc.hyps(2) by simp
    have si: "Suc i \<le> length oas" using i by simp
    have c1: "copy_loop T oe ((oas @ [oe]) ! Suc i) (fst s1, snd s1) = Some r"
      using c b be v Returns nx1 by (subst (asm) copy_loop.simps) simp
    note ih = Suc.hyps(1) [OF k o1 w1 d1' si c1]
    have "\<forall>sg s2. r = Throws sg s2 \<longrightarrow>
            sg \<in> {bad_alloc, element_exception} \<and>
            (\<exists>as' n. n < length oxs - i \<and>
               well_formed (snd s2) (fst s2) as' (xs @ take n (drop i oxs))) \<and>
            (\<forall>y\<in>set (oe # oas). cells (snd s2) y = cells h y)"
    proof (intro allI impI)
      fix sg s2 assume "r = Throws sg s2"
      with ih obtain as' n where sg: "sg \<in> {bad_alloc, element_exception}"
        and n: "n < length oxs - Suc i"
        and w: "well_formed (snd s2) (fst s2) as' ((xs @ [oxs ! i]) @ take n (drop (Suc i) oxs))"
        and k2: "\<forall>y\<in>set (oe # oas). cells (snd s2) y = cells (snd s1) y"
        by blast
      have "(xs @ [oxs ! i]) @ take n (drop (Suc i) oxs) = xs @ take (Suc n) (drop i oxs)"
        using i len by (simp add: Cons_nth_drop_Suc [symmetric])
      then have "well_formed (snd s2) (fst s2) as' (xs @ take (Suc n) (drop i oxs))"
        using w by simp
      moreover have "Suc n < length oxs - i" using n by simp
      ultimately have "\<exists>as' n. n < length oxs - i \<and>
               well_formed (snd s2) (fst s2) as' (xs @ take n (drop i oxs))" by blast
      then show "sg \<in> {bad_alloc, element_exception} \<and>
            (\<exists>as' n. n < length oxs - i \<and>
               well_formed (snd s2) (fst s2) as' (xs @ take n (drop i oxs))) \<and>
            (\<forall>y\<in>set (oe # oas). cells (snd s2) y = cells h y)"
        using sg k1 k2 by simp
    qed
    then show ?thesis using ih by blast
  next
    case (Throws sg s1)
    have r: "r = Throws sg s1"
      using c b be v Throws by (subst (asm) copy_loop.simps) simp
    from PushBack_Throws [OF wf Throws] have sg: "sg \<in> {bad_alloc, element_exception}"
      and w: "well_formed (snd s1) (fst s1) as xs" and k: "cells (snd s1) = cells h"
      by blast+
    have "0 < length oxs - i" using i len by simp
    moreover have "well_formed (snd s1) (fst s1) as (xs @ take 0 (drop i oxs))" using w by simp
    ultimately have ex: "\<exists>as' n. n < length oxs - i \<and>
               well_formed (snd s1) (fst s1) as' (xs @ take n (drop i oxs))" by blast
    show ?thesis
    proof (intro conjI allI impI)
      show "r \<noteq> Terminates" using r by simp
    next
      fix sg' s2 assume "r = Throws sg' s2"
      with r have e: "sg' = sg" "s2 = s1" by simp_all
      show "sg' \<in> {bad_alloc, element_exception}" using sg e by simp
      show "\<exists>as' n. n < length oxs - i \<and>
               well_formed (snd s2) (fst s2) as' (xs @ take n (drop i oxs))"
        using ex e by simp
      show "\<forall>y\<in>set (oe # oas). cells (snd s2) y = cells h y" using k e by simp
    qed
  next
    case Terminates
    then show ?thesis using PushBack_not_Terminates [of T "oxs ! i" "(l, h)"] by simp
  next
    case Undefined
    then show ?thesis using PushBack_beside [OF o wf d, of T "oxs ! i"] by simp
  qed
qed

lemma List_copy_ctor_Throws:
  assumes wf: "well_formed h other oas oxs" and c: "List_copy_ctor T other h = Some r"
  shows "r \<noteq> Terminates \<and>
         (\<forall>sg h1. r = Throws sg h1 \<longrightarrow>
            sg \<in> {bad_alloc, element_exception} \<and> well_formed h1 other oas oxs \<and>
            (\<forall>y\<in>set (m_end other # oas). cells h1 y = cells h y))"
proof (cases "List_ctor h")
  case (Returns this h1)
  let ?oe = "m_end other"
  from wf have o: "ring h ?oe oas oxs" and sz: "unat (m_size other) = length oas"
    by (simp_all add: well_formed_def)
  from List_ctor_Returns [OF Returns] have w: "well_formed h1 this [] []"
    and fr: "cells h (m_end this) = None"
    and k: "\<forall>y. y \<noteq> m_end this \<longrightarrow> cells h1 y = cells h y"
    by simp_all
  have live: "\<forall>y\<in>set (?oe # oas). cells h y \<noteq> None" using ring_live [OF o] by blast
  then have nn: "m_end this \<notin> set (?oe # oas)" using fr by blast
  then have k1: "\<forall>y\<in>set (?oe # oas). cells h1 y = cells h y" using k by metis
  have o1: "ring h1 ?oe oas oxs" using ring_frame [OF o k1] .
  have d: "set (?oe # oas) \<inter> set (m_end this # []) = {}" using nn by simp
  from o1 have "links h1 ?oe oas ?oe" by (simp add: ring_def)
  from links_next_hd [OF this] have nx: "GetNext h1 ?oe = Some ((oas @ [?oe]) ! 0)"
    by (simp add: hd_conv_nth)
  obtain r1 where r1: "copy_loop T ?oe ((oas @ [?oe]) ! 0) (this, h1) = Some r1"
    using copy_loop_ring [OF o1 w d, of 0 T] by auto
  note t = copy_loop_Throws [OF o1 w d le0 r1]
  show ?thesis
  proof (cases r1)
    case (Returns u s1)
    then have "r = Returns (fst s1) (snd s1)"
      using c \<open>List_ctor h = Returns this h1\<close> nx r1 by (simp add: List_copy_ctor_def)
    then show ?thesis by simp
  next
    case (Throws sg s1)
    then have r: "r = Throws sg (snd s1)"
      using c \<open>List_ctor h = Returns this h1\<close> nx r1 by (simp add: List_copy_ctor_def)
    from t Throws have sg: "sg \<in> {bad_alloc, element_exception}"
      and k2: "\<forall>y\<in>set (?oe # oas). cells (snd s1) y = cells h1 y"
      by blast+
    have k3: "\<forall>y\<in>set (?oe # oas). cells (snd s1) y = cells h y" using k1 k2 by simp
    from ring_frame [OF o k3] have "well_formed (snd s1) other oas oxs"
      using sz by (simp add: well_formed_def)
    then show ?thesis using r sg k3 by simp
  next
    case Terminates
    then show ?thesis using t by simp
  next
    case Undefined
    then show ?thesis using copy_loop_ring [OF o1 w d, of 0 T] r1 by auto
  qed
next
  case (Throws sg h1)
  then have r: "r = Throws sg h1" using c by (simp add: List_copy_ctor_def)
  from Throws have "new_ListNode h = Throws sg h1"
    by (auto simp: List_ctor_def split: outcome.splits option.splits)
  from new_ListNode_Throws [OF this] have k: "cells h1 = cells h" and sg: "sg = bad_alloc"
    by simp_all
  from wf have "ring h (m_end other) oas oxs" "unat (m_size other) = length oas"
    by (simp_all add: well_formed_def)
  then have "well_formed h1 other oas oxs"
    using ring_frame [of h "m_end other" oas oxs h1] k by (simp add: well_formed_def)
  then show ?thesis using r sg k by simp
next
  case Terminates
  then show ?thesis using List_ctor_defined [of h] by simp
next
  case Undefined
  then show ?thesis using List_ctor_defined [of h] by simp
qed

lemma assign_loop_Throws:
  assumes "ring h (m_end other) oas oxs" and "well_formed h l as xs"
    and "set (m_end other # oas) \<inter> set (m_end l # as) = {}" and "i \<le> length oas"
    and "assign_loop T other (Iterator ((oas @ [m_end other]) ! i)) (l, h) = Some r"
  shows "r \<noteq> Terminates \<and>
         (\<forall>sg s2. r = Throws sg s2 \<longrightarrow>
            sg \<in> {bad_alloc, element_exception} \<and>
            (\<exists>as' n. n < length oxs - i \<and>
               well_formed (snd s2) (fst s2) as' (xs @ take n (drop i oxs))) \<and>
            (\<forall>y\<in>set (m_end other # oas). cells (snd s2) y = cells h y))"
  using assms
proof (induction "length oas - i" arbitrary: i l h as xs)
  case 0
  then have i: "i = length oas" by simp
  have "assign_loop T other (Iterator ((oas @ [m_end other]) ! i)) (l, h) = Some (Returns () (l, h))"
    using i by (subst assign_loop.simps) (simp add: iter_neq_def End_def)
  then show ?case using "0.prems"(5) by auto
next
  case (Suc k)
  then have i: "i < length oas" by simp
  note o = Suc.prems(1) and wf = Suc.prems(2) and d = Suc.prems(3) and c = Suc.prems(5)
  let ?oe = "m_end other"
  let ?b = "oas ! i"
  have len: "length oxs = length oas" using ring_length [OF o] .
  have b: "(oas @ [?oe]) ! i = ?b" using i by (simp add: nth_append)
  have be: "?b \<noteq> ?oe" and b0: "?b \<noteq> 0" and v: "GetValue h ?b = Some (oxs ! i)"
    using ring_value_nth [OF o i] by simp_all
  have bm: "?b \<in> set (?oe # oas)" using i by simp
  have nx: "GetNext h ?b = Some ((oas @ [?oe]) ! Suc i)"
    using ring_next_cyc(1) [OF o, of i] i b by simp
  have dr: "deref h (Iterator ?b) = Returns (oxs ! i) (Iterator ?b)"
    using b0 v by (simp add: deref_def)
  have nq: "iter_neq (Iterator ?b) (End other)" using be by (simp add: iter_neq_def End_def)
  show ?case
  proof (cases "PushBack T (oxs ! i) (l, h)")
    case (Returns u1 s1)
    from PushBack_beside [OF o wf d, of T "oxs ! i" u1 s1] Returns obtain as1 where
      w1: "well_formed (snd s1) (fst s1) as1 (xs @ [oxs ! i])"
      and e1: "m_end (fst s1) = m_end l"
      and d1: "set (?oe # oas) \<inter> set (m_end l # as1) = {}"
      and o1: "ring (snd s1) ?oe oas oxs"
      and k1: "\<forall>y\<in>set (?oe # oas). cells (snd s1) y = cells h y"
      by blast
    have "cells (snd s1) ?b = cells h ?b" using k1 bm by blast
    then have "GetNext (snd s1) ?b = Some ((oas @ [?oe]) ! Suc i)"
      using nx by (simp add: GetNext_def)
    then have inc: "pre_increment (snd s1) (Iterator ?b) =
        Returns () (Iterator ((oas @ [?oe]) ! Suc i))"
      using b0 by (simp add: pre_increment_def)
    have d1': "set (?oe # oas) \<inter> set (m_end (fst s1) # as1) = {}" using d1 e1 by simp
    have k: "k = length oas - Suc i" using Suc.hyps(2) by simp
    have si: "Suc i \<le> length oas" using i by simp
    have c1: "assign_loop T other (Iterator ((oas @ [?oe]) ! Suc i)) (fst s1, snd s1) = Some r"
      using c b nq dr Returns inc by (subst (asm) assign_loop.simps) simp
    note ih = Suc.hyps(1) [OF k o1 w1 d1' si c1]
    have "\<forall>sg s2. r = Throws sg s2 \<longrightarrow>
            sg \<in> {bad_alloc, element_exception} \<and>
            (\<exists>as' n. n < length oxs - i \<and>
               well_formed (snd s2) (fst s2) as' (xs @ take n (drop i oxs))) \<and>
            (\<forall>y\<in>set (?oe # oas). cells (snd s2) y = cells h y)"
    proof (intro allI impI)
      fix sg s2 assume "r = Throws sg s2"
      with ih obtain as' n where sg: "sg \<in> {bad_alloc, element_exception}"
        and n: "n < length oxs - Suc i"
        and w: "well_formed (snd s2) (fst s2) as' ((xs @ [oxs ! i]) @ take n (drop (Suc i) oxs))"
        and k2: "\<forall>y\<in>set (?oe # oas). cells (snd s2) y = cells (snd s1) y"
        by blast
      have "(xs @ [oxs ! i]) @ take n (drop (Suc i) oxs) = xs @ take (Suc n) (drop i oxs)"
        using i len by (simp add: Cons_nth_drop_Suc [symmetric])
      then have "well_formed (snd s2) (fst s2) as' (xs @ take (Suc n) (drop i oxs))"
        using w by simp
      moreover have "Suc n < length oxs - i" using n by simp
      ultimately have "\<exists>as' n. n < length oxs - i \<and>
               well_formed (snd s2) (fst s2) as' (xs @ take n (drop i oxs))" by blast
      then show "sg \<in> {bad_alloc, element_exception} \<and>
            (\<exists>as' n. n < length oxs - i \<and>
               well_formed (snd s2) (fst s2) as' (xs @ take n (drop i oxs))) \<and>
            (\<forall>y\<in>set (?oe # oas). cells (snd s2) y = cells h y)"
        using sg k1 k2 by simp
    qed
    then show ?thesis using ih by blast
  next
    case (Throws sg s1)
    have r: "r = Throws sg s1"
      using c b nq dr Throws by (subst (asm) assign_loop.simps) simp
    from PushBack_Throws [OF wf Throws] have sg: "sg \<in> {bad_alloc, element_exception}"
      and w: "well_formed (snd s1) (fst s1) as xs" and k: "cells (snd s1) = cells h"
      by blast+
    have "0 < length oxs - i" using i len by simp
    moreover have "well_formed (snd s1) (fst s1) as (xs @ take 0 (drop i oxs))" using w by simp
    ultimately have ex: "\<exists>as' n. n < length oxs - i \<and>
               well_formed (snd s1) (fst s1) as' (xs @ take n (drop i oxs))" by blast
    show ?thesis
    proof (intro conjI allI impI)
      show "r \<noteq> Terminates" using r by simp
    next
      fix sg' s2 assume "r = Throws sg' s2"
      with r have e: "sg' = sg" "s2 = s1" by simp_all
      show "sg' \<in> {bad_alloc, element_exception}" using sg e by simp
      show "\<exists>as' n. n < length oxs - i \<and>
               well_formed (snd s2) (fst s2) as' (xs @ take n (drop i oxs))"
        using ex e by simp
      show "\<forall>y\<in>set (?oe # oas). cells (snd s2) y = cells h y" using k e by simp
    qed
  next
    case Terminates
    then show ?thesis using PushBack_not_Terminates [of T "oxs ! i" "(l, h)"] by simp
  next
    case Undefined
    then show ?thesis using PushBack_beside [OF o wf d, of T "oxs ! i"] by simp
  qed
qed

lemma copy_assign_Throws:
  assumes wd: "well_formed h dst bs ys" and wo: "well_formed h other as xs"
    and d: "set (m_end dst # bs) \<inter> set (m_end other # as) = {}" and ne: "this_p \<noteq> other_p"
    and c: "copy_assign T this_p other_p ((dst, other), h) = Some r"
  shows "r \<noteq> Terminates \<and>
         (\<forall>sg dst1 other1 h1. r = Throws sg ((dst1, other1), h1) \<longrightarrow>
            sg \<in> {bad_alloc, element_exception} \<and> other1 = other \<and>
            (\<exists>bs1 n. n < length xs \<and> well_formed h1 dst1 bs1 (take n xs)) \<and>
            well_formed h1 other as xs)"
proof -
  let ?S = "set (m_end other # as)"
  let ?oe = "m_end other"
  from wo have r: "ring h ?oe as xs" and sz: "unat (m_size other) = length as"
    by (simp_all add: well_formed_def)
  from pop_back_all_clear [OF wd] obtain h1 where
    p: "pop_back_all (dst, h) = Returns () (dst\<lparr>m_size := 0\<rparr>, h1)"
    and w1: "well_formed h1 (dst\<lparr>m_size := 0\<rparr>) [] []"
    and f1: "\<forall>y. y \<notin> set (m_end dst # bs) \<longrightarrow> cells h1 y = cells h y"
    by blast
  have k1: "\<forall>y\<in>?S. cells h1 y = cells h y" using f1 d by blast
  have r1: "ring h1 ?oe as xs" using ring_frame [OF r k1] .
  then have "links h1 ?oe as ?oe" by (simp add: ring_def)
  from links_next_hd [OF this] have bg: "Begin h1 other = Some (Iterator ((as @ [?oe]) ! 0))"
    by (simp add: Begin_def hd_conv_nth)
  have d1: "?S \<inter> set (m_end (dst\<lparr>m_size := 0\<rparr>) # []) = {}" using d by auto
  obtain r2 where
    r2: "assign_loop T other (Iterator ((as @ [?oe]) ! 0)) (dst\<lparr>m_size := 0\<rparr>, h1) = Some r2"
    using assign_loop_ring [OF r1 w1 d1, of 0 T] by auto
  note t = assign_loop_Throws [OF r1 w1 d1 le0 r2]
  show ?thesis
  proof (cases r2)
    case (Returns u s1)
    then have "r = Returns () ((fst s1, other), snd s1)"
      using c ne p bg r2 by (simp add: copy_assign_def)
    then show ?thesis by simp
  next
    case (Throws sg s1)
    then have rr: "r = Throws sg ((fst s1, other), snd s1)"
      using c ne p bg r2 by (simp add: copy_assign_def)
    from t Throws have "sg \<in> {bad_alloc, element_exception} \<and>
            (\<exists>as' n. n < length xs - 0 \<and>
               well_formed (snd s1) (fst s1) as' ([] @ take n (drop 0 xs))) \<and>
            (\<forall>y\<in>?S. cells (snd s1) y = cells h1 y)"
      by blast
    then obtain bs1 n where sg: "sg \<in> {bad_alloc, element_exception}"
      and n: "n < length xs" and w: "well_formed (snd s1) (fst s1) bs1 (take n xs)"
      and k2: "\<forall>y\<in>?S. cells (snd s1) y = cells h1 y"
      by auto
    have "\<forall>y\<in>?S. cells (snd s1) y = cells h y" using k1 k2 by simp
    from ring_frame [OF r this] have "well_formed (snd s1) other as xs"
      using sz by (simp add: well_formed_def)
    then show ?thesis using rr sg n w by auto
  next
    case Terminates
    then show ?thesis using t by simp
  next
    case Undefined
    then show ?thesis using assign_loop_ring [OF r1 w1 d1, of 0 T] r2 by auto
  qed
qed

subsection \<open>The concrete stores\<close>

lemma example_empty_built:
  "List_ctor (empty_store [1, 2, 3, 4]) = Returns (fst example_empty) (snd example_empty)"
  by (simp add: List_ctor_def new_ListNode_def operator_new_def empty_store_def self_link_def
      obind_def SetNext_def SetPrev_def example_empty_def)

lemma example_empty_well_formed: "well_formed (snd example_empty) (fst example_empty) [] []"
  by (simp add: example_empty_def well_formed_def ring_def GetNext_def GetPrev_def GetValue_def)

lemmas store_simps = GetNext_def GetPrev_def GetValue_def SetNext_def SetPrev_def obind_def
  operator_new_def delete_def LinkAfter_def UnLink_def

lemma example_012_well_formed:
  "well_formed (snd example_012) (fst example_012) [4, 2, 3] [0, 1, 2]"
  by (simp add: example_012_def well_formed_def ring_def GetNext_def GetPrev_def GetValue_def)

lemma example_012_traverse:
  "traverse (snd example_012) (fst example_012) = Some (Returns [0, 1, 2] (Iterator 1))"
  by (simp add: example_012_def traverse_def Begin_def End_def collect.simps iter_neq_def
      deref_def pre_increment_def GetNext_def GetValue_def)

lemma example_A_well_formed: "well_formed (snd example_A) (fst example_A) [2, 3] [1, 2]"
  by (simp add: example_A_def well_formed_def ring_def GetNext_def GetPrev_def GetValue_def)

lemma example_B_built:
  "List_copy_ctor plain_T (fst example_A) (snd example_A) =
   Some (Returns (fst example_B) (snd example_B))"
  by (simp add: example_A_def example_B_def plain_T_def List_copy_ctor_def List_ctor_def
      new_ListNode_def self_link_def copy_loop.simps PushBack_def push_def new_TNode_def
      store_simps fun_upd_twist)

lemma example_B3_built:
  "run (apply_mutation plain_T) [Op (OpPushBack 3)] example_B = Returns () example_B3"
  by (simp add: example_B_def example_B3_def plain_T_def PushBack_def push_def new_TNode_def
      store_simps fun_upd_twist)

lemma example_B3_traverse:
  "traverse (snd example_B3) (fst example_A) = Some (Returns [1, 2] (End (fst example_A)))"
  "traverse (snd example_B3) (fst example_B3) = Some (Returns [1, 2, 3] (End (fst example_B3)))"
  by (simp_all add: example_A_def example_B3_def traverse_def Begin_def End_def collect.simps
      iter_neq_def deref_def pre_increment_def GetNext_def GetValue_def)

lemma example_B_well_formed:
  "well_formed (snd example_B) (fst example_B) [5, 6] [1, 2]"
  "well_formed (snd example_B) (fst example_A) [2, 3] [1, 2]"
  by (simp_all add: example_A_def example_B_def well_formed_def ring_def GetNext_def GetPrev_def
      GetValue_def)

subsection \<open>Size and order after pushes and pops\<close>

lemma example_012_built:
  "run (apply_op plain_T) [OpPushBack 1, OpPushBack 2, OpPushFront 0] example_empty =
   Returns () example_012"
  by (simp add: example_empty_def example_012_def plain_T_def PushBack_def PushFront_def push_def
      new_TNode_def store_simps fun_upd_twist)

text \<open>
  C1: start from the empty list that \<^verbatim>\<open>List()\<close> builds and make any sequence of
  \<^verbatim>\<open>PushBack\<close>, \<^verbatim>\<open>PushFront\<close>, \<^verbatim>\<open>PopBack\<close>, \<^verbatim>\<open>PopFront\<close> calls in
  which a pop is only made on a non-empty list (\<open>model_run\<close> has a result).

  \<^item> The calls never have undefined behaviour. When all of them return, \<^verbatim>\<open>Size()\<close> is
    the number of pushes minus the number of pops, and the traversal from \<^verbatim>\<open>Begin()\<close>
    to \<^verbatim>\<open>End()\<close> yields exactly that many elements, in the order the calls imply
    (\<^verbatim>\<open>PushBack\<close> appends, \<^verbatim>\<open>PushFront\<close> prepends, the pops remove the last and
    the first).
  \<^item> The only way for the sequence to stop early is a push: one that throws
    \<^verbatim>\<open>std::bad_alloc\<close> or the exception of the element's constructor, after which the
    list holds what the calls before that push imply, with that size; or a push by
    move whose element's move constructor throws, which ends the program. A pop never
    fails.
  \<^item> When the allocator serves (its offers are unused, distinct and non-null, one for
    the sentinel and one for every push) and no element constructor throws, the
    constructor and every call do return, with the size and the traversal above.

  After \<^verbatim>\<open>PushBack(1)\<close>, \<^verbatim>\<open>PushBack(2)\<close>, \<^verbatim>\<open>PushFront(0)\<close> the traversal yields
  \<open>[0, 1, 2]\<close> and the size is \<open>3\<close>; after a further \<^verbatim>\<open>PopFront()\<close> and
  \<^verbatim>\<open>PopBack()\<close> it yields \<open>[1]\<close> (the instances below).
\<close>

theorem push_pop_sequences:
  assumes "model_run model_op cs [] = Some xs"
  shows "(List_ctor h0 = Returns l0 h1 \<longrightarrow>
            run (apply_op T) cs (l0, h1) \<noteq> Undefined \<and>
            (run (apply_op T) cs (l0, h1) = Returns u (l, h) \<longrightarrow>
               unat (Size l) = pushes cs - pops cs \<and>
               traverse h l = Some (Returns xs (End l)) \<and>
               length xs = pushes cs - pops cs) \<and>
            (run (apply_op T) cs (l0, h1) = Throws sg (l, h) \<longrightarrow>
               sg \<in> {bad_alloc, element_exception} \<and>
               (\<exists>k<length cs. is_push (cs ! k) \<and>
                  (\<exists>zs. model_run model_op (take k cs) [] = Some zs \<and>
                        traverse h l = Some (Returns zs (End l)) \<and>
                        unat (Size l) = length zs))) \<and>
            (run (apply_op T) cs (l0, h1) = Terminates \<longrightarrow>
               (\<exists>k<length cs. \<exists>x.
                  (cs ! k = OpPushBackMove x \<or> cs ! k = OpPushFrontMove x) \<and>
                  move_throws T x))) \<and>
         (good_offers h0 \<and> pushes cs < length (offers h0) \<and> (\<forall>c\<in>set cs. \<not> throws_on T c) \<longrightarrow>
            (\<exists>l1 h2 l2 h3. List_ctor h0 = Returns l1 h2 \<and>
               run (apply_op T) cs (l1, h2) = Returns () (l2, h3) \<and>
               unat (Size l2) = pushes cs - pops cs \<and>
               traverse h3 l2 = Some (Returns xs (End l2)) \<and>
               length xs = pushes cs - pops cs))"
proof -
  have m: "model_run model_mutation (map Op cs) [] = Some xs"
    using assms by (simp add: model_run_map_Op)
  have len: "length xs = pushes cs - pops cs"
    using model_run_length [OF assms] by simp
  have ret: "\<And>l0 h1 u l h. well_formed h1 l0 [] [] \<Longrightarrow>
      run (apply_op T) cs (l0, h1) = Returns u (l, h) \<Longrightarrow>
      unat (Size l) = pushes cs - pops cs \<and> traverse h l = Some (Returns xs (End l))"
  proof -
    fix l0 h1 u l h
    assume wf: "well_formed h1 l0 [] []"
      and "run (apply_op T) cs (l0, h1) = Returns u (l, h)"
    then have r: "run (apply_mutation T) (map Op cs) (l0, h1) = Returns u (l, h)"
      by (simp add: run_map_Op)
    from run_mutations [OF wf _ _ m r, of "{}"] obtain as where
      w: "well_formed h l as xs" by auto
    then have "ring h (m_end l) as xs" and "unat (m_size l) = length as"
      by (simp_all add: well_formed_def)
    then show "unat (Size l) = pushes cs - pops cs \<and> traverse h l = Some (Returns xs (End l))"
      using traverse_ring [of h l as xs] well_formed_length [OF w] len by (simp add: Size_def)
  qed
  have 1: "List_ctor h0 = Returns l0 h1 \<longrightarrow>
            run (apply_op T) cs (l0, h1) \<noteq> Undefined \<and>
            (run (apply_op T) cs (l0, h1) = Returns u (l, h) \<longrightarrow>
               unat (Size l) = pushes cs - pops cs \<and>
               traverse h l = Some (Returns xs (End l)) \<and>
               length xs = pushes cs - pops cs) \<and>
            (run (apply_op T) cs (l0, h1) = Throws sg (l, h) \<longrightarrow>
               sg \<in> {bad_alloc, element_exception} \<and>
               (\<exists>k<length cs. is_push (cs ! k) \<and>
                  (\<exists>zs. model_run model_op (take k cs) [] = Some zs \<and>
                        traverse h l = Some (Returns zs (End l)) \<and>
                        unat (Size l) = length zs))) \<and>
            (run (apply_op T) cs (l0, h1) = Terminates \<longrightarrow>
               (\<exists>k<length cs. \<exists>x.
                  (cs ! k = OpPushBackMove x \<or> cs ! k = OpPushFrontMove x) \<and>
                  move_throws T x))"
  proof
    assume "List_ctor h0 = Returns l0 h1"
    from List_ctor_Returns [OF this] have wf: "well_formed h1 l0 [] []" by simp
    have a: "run (apply_op T) cs (l0, h1) \<noteq> Undefined"
      using run_mutations_defined [OF wf m, of T] by (simp add: run_map_Op)
    have b: "run (apply_op T) cs (l0, h1) = Returns u (l, h) \<longrightarrow>
               unat (Size l) = pushes cs - pops cs \<and>
               traverse h l = Some (Returns xs (End l)) \<and>
               length xs = pushes cs - pops cs"
      using ret [OF wf] len by blast
    have c: "run (apply_op T) cs (l0, h1) = Throws sg (l, h) \<longrightarrow>
               sg \<in> {bad_alloc, element_exception} \<and>
               (\<exists>k<length cs. is_push (cs ! k) \<and>
                  (\<exists>zs. model_run model_op (take k cs) [] = Some zs \<and>
                        traverse h l = Some (Returns zs (End l)) \<and>
                        unat (Size l) = length zs))"
    proof
      assume "run (apply_op T) cs (l0, h1) = Throws sg (l, h)"
      from run_Throws [OF wf assms this] obtain k zs as1 where
        sg: "sg \<in> {bad_alloc, element_exception}" and k: "k < length cs" "is_push (cs ! k)"
          "model_run model_op (take k cs) [] = Some zs" and w: "well_formed h l as1 zs"
        by auto
      from w have "ring h (m_end l) as1 zs" and "unat (m_size l) = length as1"
        by (simp_all add: well_formed_def)
      then have "traverse h l = Some (Returns zs (End l))" "unat (Size l) = length zs"
        using traverse_ring [of h l as1 zs] well_formed_length [OF w] by (simp_all add: Size_def)
      then show "sg \<in> {bad_alloc, element_exception} \<and>
               (\<exists>k<length cs. is_push (cs ! k) \<and>
                  (\<exists>zs. model_run model_op (take k cs) [] = Some zs \<and>
                        traverse h l = Some (Returns zs (End l)) \<and>
                        unat (Size l) = length zs))"
        using sg k by blast
    qed
    show "run (apply_op T) cs (l0, h1) \<noteq> Undefined \<and>
            (run (apply_op T) cs (l0, h1) = Returns u (l, h) \<longrightarrow>
               unat (Size l) = pushes cs - pops cs \<and>
               traverse h l = Some (Returns xs (End l)) \<and>
               length xs = pushes cs - pops cs) \<and>
            (run (apply_op T) cs (l0, h1) = Throws sg (l, h) \<longrightarrow>
               sg \<in> {bad_alloc, element_exception} \<and>
               (\<exists>k<length cs. is_push (cs ! k) \<and>
                  (\<exists>zs. model_run model_op (take k cs) [] = Some zs \<and>
                        traverse h l = Some (Returns zs (End l)) \<and>
                        unat (Size l) = length zs))) \<and>
            (run (apply_op T) cs (l0, h1) = Terminates \<longrightarrow>
               (\<exists>k<length cs. \<exists>x.
                  (cs ! k = OpPushBackMove x \<or> cs ! k = OpPushFrontMove x) \<and>
                  move_throws T x))"
      using a b c run_Terminates [of T cs "(l0, h1)"] by blast
  qed
  have 2: "good_offers h0 \<and> pushes cs < length (offers h0) \<and> (\<forall>c\<in>set cs. \<not> throws_on T c) \<longrightarrow>
            (\<exists>l1 h2 l2 h3. List_ctor h0 = Returns l1 h2 \<and>
               run (apply_op T) cs (l1, h2) = Returns () (l2, h3) \<and>
               unat (Size l2) = pushes cs - pops cs \<and>
               traverse h3 l2 = Some (Returns xs (End l2)) \<and>
               length xs = pushes cs - pops cs)"
  proof
    assume a: "good_offers h0 \<and> pushes cs < length (offers h0) \<and>
      (\<forall>c\<in>set cs. \<not> throws_on T c)"
    then obtain a0 rest where o: "offers h0 = a0 # rest" by (cases "offers h0") auto
    from a List_ctor_served [OF _ o] obtain l1 h2 where
      c: "List_ctor h0 = Returns l1 h2" and g: "good_offers h2" and o2: "offers h2 = rest"
      by blast
    from List_ctor_Returns [OF c] have wf: "well_formed h2 l1 [] []" by simp
    have p: "pushes cs \<le> length (offers h2)" using a o o2 by simp
    from a have nt: "\<forall>c\<in>set cs. \<not> throws_on T c" by blast
    from run_served [OF wf g p nt assms] obtain s1 where
      r: "run (apply_op T) cs (l1, h2) = Returns () s1" by blast
    then have "run (apply_op T) cs (l1, h2) = Returns () (fst s1, snd s1)" by simp
    from ret [OF wf this] c this len
    show "\<exists>l1 h2 l2 h3. List_ctor h0 = Returns l1 h2 \<and>
               run (apply_op T) cs (l1, h2) = Returns () (l2, h3) \<and>
               unat (Size l2) = pushes cs - pops cs \<and>
               traverse h3 l2 = Some (Returns xs (End l2)) \<and>
               length xs = pushes cs - pops cs"
      by blast
  qed
  show ?thesis using 1 2 by blast
qed

lemma example_1_built:
  "run (apply_op plain_T) [OpPushBack 1, OpPushBack 2, OpPushFront 0, OpPopFront, OpPopBack]
     example_empty = Returns () example_1"
  by (simp add: example_empty_def example_1_def plain_T_def PushBack_def PushFront_def push_def
      new_TNode_def PopFront_def PopBack_def store_simps fun_upd_twist fun_eq_iff)

lemma example_1_thrown:
  "List_ctor (empty_store [1, 2]) =
     Returns (fst example_empty) ((snd example_empty)\<lparr>offers := [2]\<rparr>)"
  "run (apply_op plain_T) [OpPushBack 1, OpPushBack 2]
     (fst example_empty, (snd example_empty)\<lparr>offers := [2]\<rparr>) = Throws bad_alloc example_1"
  by (simp_all add: example_empty_def example_1_def plain_T_def empty_store_def List_ctor_def
      new_ListNode_def self_link_def PushBack_def push_def new_TNode_def store_simps
      fun_upd_twist)

theorem push_pop_sequences_witness:
  "model_run model_op [OpPushBack 1, OpPushBack 2, OpPushFront 0, OpPopFront, OpPopBack] [] =
     Some [1 :: int] \<and>
   good_offers (empty_store [1, 2, 3, 4]) \<and>
   pushes [OpPushBack 1, OpPushBack 2, OpPushFront 0, OpPopFront, OpPopBack :: int op] <
     length (offers (empty_store [1, 2, 3, 4])) \<and>
   list_all (\<lambda>c. \<not> throws_on plain_T c)
     [OpPushBack 1, OpPushBack 2, OpPushFront 0, OpPopFront, OpPopBack] \<and>
   List_ctor (empty_store [1, 2, 3, 4]) = Returns (fst example_empty) (snd example_empty) \<and>
   run (apply_op plain_T) [OpPushBack 1, OpPushBack 2, OpPushFront 0, OpPopFront, OpPopBack]
     example_empty = Returns () example_1 \<and>
   unat (Size (fst example_1)) = 1 \<and>
   traverse (snd example_1) (fst example_1) = Some (Returns [1] (End (fst example_1))) \<and>
   model_run model_op [OpPushBack 1, OpPushBack 2, OpPushFront 0] [] = Some [0, 1, 2 :: int] \<and>
   run (apply_op plain_T) [OpPushBack 1, OpPushBack 2, OpPushFront 0] example_empty =
     Returns () example_012 \<and>
   unat (Size (fst example_012)) = 3 \<and>
   traverse (snd example_012) (fst example_012) = Some (Returns [0, 1, 2] (End (fst example_012))) \<and>
   model_run model_op [OpPushBack 1, OpPushBack 2] [] = Some [1, 2 :: int] \<and>
   List_ctor (empty_store [1, 2]) =
     Returns (fst example_empty) ((snd example_empty)\<lparr>offers := [2]\<rparr>) \<and>
   run (apply_op plain_T) [OpPushBack 1, OpPushBack 2]
     (fst example_empty, (snd example_empty)\<lparr>offers := [2]\<rparr>) = Throws bad_alloc example_1 \<and>
   is_push ([OpPushBack 1, OpPushBack 2 :: int op] ! 1) \<and>
   model_run model_op (take 1 [OpPushBack 1, OpPushBack 2]) [] = Some [1 :: int]"
proof -
  let ?cs = "[OpPushBack 1, OpPushBack 2, OpPushFront 0, OpPopFront, OpPopBack :: int op]"
  let ?cs3 = "[OpPushBack 1, OpPushBack 2, OpPushFront 0 :: int op]"
  have c1: "model_run model_op ?cs [] = Some [1 :: int]" by simp
  have c2: "good_offers (empty_store [1, 2, 3, 4])"
    by (simp add: good_offers_def empty_store_def)
  have c3: "pushes ?cs < length (offers (empty_store [1, 2, 3, 4]))"
    by (simp add: pushes_def empty_store_def)
  have c4: "list_all (\<lambda>c. \<not> throws_on plain_T c) ?cs" by (simp add: plain_T_def)
  have c5: "List_ctor (empty_store [1, 2, 3, 4]) = Returns (fst example_empty) (snd example_empty)"
    by (rule example_empty_built)
  have c6: "run (apply_op plain_T) ?cs example_empty = Returns () example_1"
    by (rule example_1_built)
  then have r: "run (apply_op plain_T) ?cs (fst example_empty, snd example_empty) =
      Returns () (fst example_1, snd example_1)" by simp
  have "List_ctor (empty_store [1, 2, 3, 4]) = Returns (fst example_empty) (snd example_empty) \<longrightarrow>
      run (apply_op plain_T) ?cs (fst example_empty, snd example_empty) \<noteq> Undefined \<and>
      (run (apply_op plain_T) ?cs (fst example_empty, snd example_empty) =
         Returns () (fst example_1, snd example_1) \<longrightarrow>
         unat (Size (fst example_1)) = pushes ?cs - pops ?cs \<and>
         traverse (snd example_1) (fst example_1) = Some (Returns [1] (End (fst example_1))) \<and>
         length [1 :: int] = pushes ?cs - pops ?cs) \<and>
      (run (apply_op plain_T) ?cs (fst example_empty, snd example_empty) =
         Throws bad_alloc (fst example_1, snd example_1) \<longrightarrow>
         bad_alloc \<in> {bad_alloc, element_exception} \<and>
         (\<exists>k<length ?cs. is_push (?cs ! k) \<and>
            (\<exists>zs. model_run model_op (take k ?cs) [] = Some zs \<and>
                  traverse (snd example_1) (fst example_1) = Some (Returns zs (End (fst example_1))) \<and>
                  unat (Size (fst example_1)) = length zs))) \<and>
      (run (apply_op plain_T) ?cs (fst example_empty, snd example_empty) = Terminates \<longrightarrow>
         (\<exists>k<length ?cs. \<exists>x.
            (?cs ! k = OpPushBackMove x \<or> ?cs ! k = OpPushFrontMove x) \<and>
            move_throws plain_T x))"
    by (rule push_pop_sequences [OF c1, where T = plain_T and u = "()"
          and sg = bad_alloc, THEN conjunct1])
  with c5 r have "unat (Size (fst example_1)) = pushes ?cs - pops ?cs"
    and c8: "traverse (snd example_1) (fst example_1) = Some (Returns [1] (End (fst example_1)))"
    by blast+
  then have c7: "unat (Size (fst example_1)) = 1" by (simp add: pushes_def pops_def)
  have c9: "model_run model_op ?cs3 [] = Some [0, 1, 2 :: int]" by simp
  have c10: "run (apply_op plain_T) ?cs3 example_empty = Returns () example_012"
    by (rule example_012_built)
  have c11: "unat (Size (fst example_012)) = 3" by (simp add: example_012_def Size_def)
  have c12: "traverse (snd example_012) (fst example_012) =
      Some (Returns [0, 1, 2] (End (fst example_012)))"
    using example_012_traverse by (simp add: End_def example_012_def)
  have c13: "model_run model_op [OpPushBack 1, OpPushBack 2] [] = Some [1, 2 :: int]" by simp
  have c14: "is_push ([OpPushBack 1, OpPushBack 2 :: int op] ! 1)" by simp
  have c15: "model_run model_op (take 1 [OpPushBack 1, OpPushBack 2]) [] = Some [1 :: int]"
    by simp
  show ?thesis
    by (intro conjI) (rule c1 c2 c3 c4 c5 c6 c7 c8 c9 c10 c11 c12 c13 c14 c15 example_1_thrown)+
qed

subsection \<open>Erasing at the end and at no position\<close>

text \<open>
  C9: for every list, empty or not, \<^verbatim>\<open>Erase(End())\<close> returns without an error and
  changes nothing: the object (so its size) and the whole store (so every link and every
  element) are the ones before the call.
\<close>

theorem Erase_End_noop: "Erase (End l) (l, h) = Returns () (l, h)"
  by (simp add: Erase_def End_def)

lemma unat_minus_1_64: "unat (- 1 :: 64 word) = 2 ^ 64 - 1"
  by (simp add: unsigned_minus_1_eq_mask mask_eq_exp_minus_1)

lemma unat_pred_neq: "unat ((w :: 64 word) - 1) \<noteq> unat w"
proof (cases "w = 0")
  case True
  then show ?thesis by (simp add: unat_minus_1_64)
next
  case False
  then have "unat w \<noteq> 0" by (simp add: unat_eq_0)
  then show ?thesis using False by (simp add: unat_minus_one)
qed

text \<open>
  C10: on a well-formed list, \<^verbatim>\<open>Erase\<close> with a default-constructed iterator leaves
  the store, and so the ring with its links and elements, as it was, but decrements
  \<^verbatim>\<open>size_\<close>: afterwards \<^verbatim>\<open>Size()\<close> differs from the number of typed nodes of
  the ring, and on an empty list it has wrapped around to \<open>2 ^ 64 - 1\<close>.
\<close>

theorem Erase_default_iterator:
  assumes "well_formed h l as xs"
  shows "Erase Iterator_default (l, h) = Returns () (l\<lparr>m_size := m_size l - 1\<rparr>, h) \<and>
         ring h (m_end l) as xs \<and>
         unat (Size (l\<lparr>m_size := m_size l - 1\<rparr>)) \<noteq> length as \<and>
         (as = [] \<longrightarrow> unat (Size (l\<lparr>m_size := m_size l - 1\<rparr>)) = 2 ^ 64 - 1)"
proof -
  from assms have r: "ring h (m_end l) as xs" and sz: "unat (m_size l) = length as"
    by (simp_all add: well_formed_def)
  from r have "m_end l \<noteq> 0" by (simp add: ring_def)
  then have "Erase Iterator_default (l, h) = Returns () (l\<lparr>m_size := m_size l - 1\<rparr>, h)"
    by (simp add: Erase_def Iterator_default_def UnLink_def)
  moreover have "unat (m_size l - 1) \<noteq> length as"
    using unat_pred_neq [of "m_size l"] sz by simp
  moreover have "as = [] \<longrightarrow> unat (m_size l - 1) = 2 ^ 64 - 1"
  proof
    assume "as = []"
    with sz have "m_size l = 0" by (simp add: unat_eq_0)
    then show "unat (m_size l - 1) = 2 ^ 64 - 1" by (simp add: unat_minus_1_64)
  qed
  ultimately show ?thesis using r by (simp add: Size_def)
qed

theorem Erase_default_iterator_witness:
  "well_formed (snd example_empty) (fst example_empty) [] [] \<and>
   Erase Iterator_default example_empty =
     Returns () ((fst example_empty)\<lparr>m_size := - 1\<rparr>, snd example_empty) \<and>
   ring (snd example_empty) (m_end (fst example_empty)) [] [] \<and>
   unat (Size ((fst example_empty)\<lparr>m_size := - 1\<rparr>)) = 2 ^ 64 - 1"
  using Erase_default_iterator [OF example_empty_well_formed] example_empty_well_formed
  by (simp add: example_empty_def)


subsection \<open>The signals of the iterator\<close>

text \<open>
  C5, as stated, fails: \<^verbatim>\<open>operator++\<close> checks for null only. On the list
  \<open>[0, 1, 2]\<close> both increments of \<^verbatim>\<open>End()\<close> return, and the iterator stands at the
  first element; no \<^verbatim>\<open>std::out_of_range\<close> is raised.
\<close>

theorem increment_End_counterexample:
  "pre_increment (snd example_012) (End (fst example_012)) = Returns () (Iterator 4) \<and>
   post_increment (snd example_012) (End (fst example_012)) = Returns (Iterator 1) (Iterator 4) \<and>
   pre_increment (snd example_012) (End (fst example_012)) \<noteq>
     Throws out_of_range (End (fst example_012))"
  by (simp add: example_012_def pre_increment_def post_increment_def End_def GetNext_def)

text \<open>
  C5, amended: on a well-formed list, incrementing (pre or post) an iterator positioned
  at \<^verbatim>\<open>End()\<close> raises nothing and moves it to \<^verbatim>\<open>Begin()\<close>, the first element or
  the sentinel again when the list is empty. The out-of-range signal is raised, at the
  increment itself, exactly for an unbound (null) iterator.
\<close>

theorem increment_at_End:
  assumes "well_formed h l as xs"
  shows "Begin h l = Some (Iterator (hd (as @ [m_end l]))) \<and>
         pre_increment h (End l) = Returns () (Iterator (hd (as @ [m_end l]))) \<and>
         post_increment h (End l) = Returns (End l) (Iterator (hd (as @ [m_end l]))) \<and>
         pre_increment h Iterator_default = Throws out_of_range Iterator_default \<and>
         post_increment h Iterator_default = Throws out_of_range Iterator_default \<and>
         ((\<exists>sg it1. pre_increment h it = Throws sg it1) = (m_iter it = 0)) \<and>
         ((\<exists>sg it1. post_increment h it = Throws sg it1) = (m_iter it = 0))"
proof -
  from assms have l: "links h (m_end l) as (m_end l)" and e0: "m_end l \<noteq> 0"
    by (simp_all add: well_formed_def ring_def)
  have n: "GetNext h (m_end l) = Some (hd (as @ [m_end l]))" using links_next_hd [OF l] .
  have "(\<exists>sg it1. pre_increment h it = Throws sg it1) = (m_iter it = 0)"
    by (auto simp: pre_increment_def split: option.splits)
  moreover have "(\<exists>sg it1. post_increment h it = Throws sg it1) = (m_iter it = 0)"
    by (auto simp: post_increment_def split: option.splits)
  ultimately show ?thesis
    using n e0
    by (simp add: Begin_def End_def pre_increment_def post_increment_def Iterator_default_def)
qed

theorem increment_at_End_witness:
  "well_formed (snd example_012) (fst example_012) [4, 2, 3] [0, 1, 2] \<and>
   Begin (snd example_012) (fst example_012) = Some (Iterator 4) \<and>
   pre_increment (snd example_012) (End (fst example_012)) = Returns () (Iterator 4) \<and>
   post_increment (snd example_012) (End (fst example_012)) =
     Returns (End (fst example_012)) (Iterator 4) \<and>
   pre_increment (snd example_012) Iterator_default = Throws out_of_range Iterator_default"
  using increment_at_End [OF example_012_well_formed, of Iterator_default]
    example_012_well_formed
  by (simp add: example_012_def)

text \<open>
  C6, as stated, fails: \<^verbatim>\<open>operator*\<close> checks for null only. Dereferencing
  \<^verbatim>\<open>End()\<close> of the list \<open>[0, 1, 2]\<close> passes the check and reads the value of the
  sentinel, which has none: undefined behaviour, and no \<^verbatim>\<open>std::runtime_error\<close>.
\<close>

theorem deref_End_counterexample:
  "deref (snd example_012) (End (fst example_012)) = Undefined \<and>
   deref (snd example_012) (End (fst example_012)) \<noteq>
     Throws runtime_error (End (fst example_012))"
  by (simp add: example_012_def deref_def End_def GetValue_def)

text \<open>
  C6, amended: dereferencing (\<^verbatim>\<open>*\<close> or \<^verbatim>\<open>->\<close>) a default-constructed iterator
  raises the dereference signal \<^verbatim>\<open>std::runtime_error\<close>, which is not the out-of-range
  signal. Dereferencing \<^verbatim>\<open>End()\<close> of a well-formed list raises no signal: it is
  undefined behaviour. An iterator at a typed node of the ring yields that node's element.
\<close>

theorem deref_signals:
  assumes "well_formed h l as xs"
  shows "deref h Iterator_default = Throws runtime_error Iterator_default \<and>
         arrow h Iterator_default = Throws runtime_error Iterator_default \<and>
         runtime_error \<noteq> out_of_range \<and>
         deref h (End l) = Undefined \<and> arrow h (End l) = Undefined \<and>
         (\<forall>i<length as. deref h (Iterator (as ! i)) = Returns (xs ! i) (Iterator (as ! i)))"
proof -
  from assms have r: "ring h (m_end l) as xs" by (simp add: well_formed_def)
  then have e0: "m_end l \<noteq> 0" and ve: "GetValue h (m_end l) = None"
    by (simp_all add: ring_def)
  have "\<forall>i<length as. deref h (Iterator (as ! i)) = Returns (xs ! i) (Iterator (as ! i))"
    using ring_value_nth [OF r] by (simp add: deref_def)
  then show ?thesis
    using e0 ve by (simp add: deref_def arrow_def End_def Iterator_default_def)
qed

theorem deref_signals_witness:
  "well_formed (snd example_012) (fst example_012) [4, 2, 3] [0, 1, 2] \<and>
   deref (snd example_012) Iterator_default = Throws runtime_error Iterator_default \<and>
   deref (snd example_012) (End (fst example_012)) = Undefined \<and>
   deref (snd example_012) (Iterator 2) = Returns 1 (Iterator 2)"
  using deref_signals [OF example_012_well_formed] example_012_well_formed
  by (simp add: example_012_def deref_def GetValue_def)

subsection \<open>Insertions that fail\<close>

text \<open>
  C2, as stated, fails for the move construction: \<^verbatim>\<open>PushBack(T&&)\<close> builds the node
  through \<^verbatim>\<open>TNode(T&&) noexcept\<close>, so an exception of the element's move constructor
  does not reach the caller: the program is terminated.
\<close>

theorem PushBack_move_counterexample:
  "move_throws throwing_T (- 1) \<and> PushBack_move throwing_T (- 1) example_empty = Terminates"
  by (simp add: example_empty_def throwing_T_def PushBack_move_def push_def new_TNode_move_def
      operator_new_def)

text \<open>
  C2, amended: for every list, every store and every value, if the node allocation fails
  (all four insertions) or the element's copy construction throws (the \<^verbatim>\<open>const T&\<close>
  insertions), the insertion propagates the exception (\<^verbatim>\<open>std::bad_alloc\<close>, or the
  element's) and the list is unchanged: the object, so \<^verbatim>\<open>Size()\<close>, is the one before
  the call and the store holds exactly the nodes of before with their contents, so no node
  was linked and none is left over. Whenever one of the four throws, that holds. If the
  element's move construction throws in a \<^verbatim>\<open>T&&\<close> insertion, the program terminates.
\<close>

theorem push_failure:
  "cells (snd (operator_new h)) = cells h \<and>
   (fst (operator_new h) = 0 \<longrightarrow>
      PushBack T x (l, h) = Throws bad_alloc (l, snd (operator_new h)) \<and>
      PushFront T x (l, h) = Throws bad_alloc (l, snd (operator_new h)) \<and>
      PushBack_move T x (l, h) = Throws bad_alloc (l, snd (operator_new h)) \<and>
      PushFront_move T x (l, h) = Throws bad_alloc (l, snd (operator_new h))) \<and>
   (fst (operator_new h) \<noteq> 0 \<and> copy_throws T x \<longrightarrow>
      PushBack T x (l, h) = Throws element_exception (l, snd (operator_new h)) \<and>
      PushFront T x (l, h) = Throws element_exception (l, snd (operator_new h))) \<and>
   (fst (operator_new h) \<noteq> 0 \<and> move_throws T x \<longrightarrow>
      PushBack_move T x (l, h) = Terminates \<and> PushFront_move T x (l, h) = Terminates) \<and>
   (call \<in> {PushBack T x, PushFront T x, PushBack_move T x, PushFront_move T x} \<and>
    call (l, h) = Throws sg s1 \<longrightarrow>
      fst s1 = l \<and> Size (fst s1) = Size l \<and> cells (snd s1) = cells h)"
proof -
  have 1: "cells (snd (operator_new h)) = cells h"
    using operator_new_effect(1) [of h] by (cases "operator_new h") simp
  have 2: "fst (operator_new h) = 0 \<longrightarrow>
      PushBack T x (l, h) = Throws bad_alloc (l, snd (operator_new h)) \<and>
      PushFront T x (l, h) = Throws bad_alloc (l, snd (operator_new h)) \<and>
      PushBack_move T x (l, h) = Throws bad_alloc (l, snd (operator_new h)) \<and>
      PushFront_move T x (l, h) = Throws bad_alloc (l, snd (operator_new h))"
    by (simp add: PushBack_def PushFront_def PushBack_move_def PushFront_move_def push_bad_alloc)
  have 3: "fst (operator_new h) \<noteq> 0 \<and> copy_throws T x \<longrightarrow>
      PushBack T x (l, h) = Throws element_exception (l, snd (operator_new h)) \<and>
      PushFront T x (l, h) = Throws element_exception (l, snd (operator_new h))"
    by (simp add: PushBack_def PushFront_def push_copy_throws)
  have 4: "fst (operator_new h) \<noteq> 0 \<and> move_throws T x \<longrightarrow>
      PushBack_move T x (l, h) = Terminates \<and> PushFront_move T x (l, h) = Terminates"
    by (simp add: PushBack_move_def PushFront_move_def push_move_throws)
  have 5: "call \<in> {PushBack T x, PushFront T x, PushBack_move T x, PushFront_move T x} \<and>
    call (l, h) = Throws sg s1 \<longrightarrow>
      fst s1 = l \<and> Size (fst s1) = Size l \<and> cells (snd s1) = cells h"
  proof
    assume a: "call \<in> {PushBack T x, PushFront T x, PushBack_move T x, PushFront_move T x} \<and>
      call (l, h) = Throws sg s1"
    then obtain fresh anchor where "call = push fresh anchor"
      and "fresh = new_TNode T x \<or> fresh = new_TNode_move T x"
      unfolding PushBack_def PushFront_def PushBack_move_def PushFront_move_def by blast
    with a push_Throws_unchanged [of fresh T x anchor l h sg s1]
    show "fst s1 = l \<and> Size (fst s1) = Size l \<and> cells (snd s1) = cells h" by simp
  qed
  show ?thesis using 1 2 3 4 5 by blast
qed

theorem push_failure_witness:
  "fst (operator_new (snd example_012)) = 0 \<and>
   PushBack plain_T 7 example_012 = Throws bad_alloc example_012 \<and>
   PushFront_move plain_T 7 example_012 = Throws bad_alloc example_012 \<and>
   fst (operator_new (snd example_empty)) \<noteq> 0 \<and> copy_throws throwing_T (- 1) \<and>
   move_throws throwing_T (- 1) \<and>
   PushBack throwing_T (- 1) example_empty =
     Throws element_exception (fst example_empty, snd (operator_new (snd example_empty))) \<and>
   cells (snd (operator_new (snd example_empty))) = cells (snd example_empty) \<and>
   PushFront_move throwing_T (- 1) example_empty = Terminates"
  using push_failure [of "snd example_012" plain_T 7 "fst example_012"]
    push_failure [of "snd example_empty" throwing_T "- 1" "fst example_empty"]
  by (simp add: example_012_def example_empty_def operator_new_def throwing_T_def)

subsection \<open>Move assignment when the replacement sentinel cannot be allocated\<close>

text \<open>
  C4: after a move assignment whose allocation of the source's replacement sentinel
  failed, the source should have a null sentinel and size zero, a state its destructor
  tolerates. The code resets \<^verbatim>\<open>other.size_\<close> only when the allocation succeeded: moving
  the list that holds \<open>5\<close> into the empty list, with no storage left, leaves the source
  with a null sentinel and size \<open>1\<close>, and its destructor then calls \<^verbatim>\<open>PopFront()\<close> on
  the null sentinel. The destination is well formed and holds \<open>5\<close>.
\<close>

theorem move_assign_failed_allocation:
  "case move_assign 10 20 example_two of
     Returns u ((this, other), h) \<Rightarrow>
       m_end other = 0 \<and> Size other = 1 \<and> \<not> IsEmpty other \<and> List_dtor (other, h) = Undefined \<and>
       this = \<lparr>m_end = 2, m_size = 1\<rparr> \<and> well_formed h this [3] [5]
   | Throws x s \<Rightarrow> False | Terminates \<Rightarrow> False | Undefined \<Rightarrow> False"
  by (simp add: example_two_def move_assign_def IsEmpty_def Size_def new_nothrow_ListNode_def
      List_dtor_def PopFront_def well_formed_def ring_def store_simps)

subsection \<open>A copy is independent of its source\<close>

text \<open>
  C8: let \<open>A\<close> be a well-formed list holding \<open>xs\<close>. The copy construction from \<open>A\<close>
  ends and has no undefined behaviour. When it returns the copy \<open>B\<close>, \<open>B\<close> holds \<open>xs\<close>;
  any sequence of pushes, pops (on a non-empty \<open>B\<close>) and erasures at iterators of \<open>B\<close>
  has no undefined behaviour, and when it returns, \<open>A\<close> is the same well-formed list on
  the same nodes: its size and its traversal are what they were, and \<open>B\<close> holds what the
  calls make of \<open>xs\<close>. With \<open>A = [1, 2]\<close> and \<^verbatim>\<open>PushBack(3)\<close> on the copy, \<open>A\<close> still
  yields \<open>[1, 2]\<close> and \<open>B\<close> yields \<open>[1, 2, 3]\<close> (the instance below).
\<close>

theorem copy_is_independent:
  assumes "well_formed h A as xs" and "model_run model_mutation cs xs = Some ys"
  shows "List_copy_ctor T A h \<noteq> None \<and> List_copy_ctor T A h \<noteq> Some Undefined \<and>
         (List_copy_ctor T A h = Some (Returns B h1) \<longrightarrow>
            traverse h1 B = Some (Returns xs (End B)) \<and>
            run (apply_mutation T) cs (B, h1) \<noteq> Undefined \<and>
            (run (apply_mutation T) cs (B, h1) = Returns u (B1, h2) \<longrightarrow>
               traverse h A = Some (Returns xs (End A)) \<and> unat (Size A) = length xs \<and>
               well_formed h2 A as xs \<and>
               traverse h2 A = Some (Returns xs (End A)) \<and>
               traverse h2 B1 = Some (Returns ys (End B1))))"
proof -
  let ?S = "set (m_end A # as)"
  from assms(1) have rA: "ring h (m_end A) as xs" and sz: "unat (m_size A) = length as"
    by (simp_all add: well_formed_def)
  have len: "length xs = length as" using well_formed_length [OF assms(1)] .
  from List_copy_ctor_ring [OF assms(1), of T] obtain r where
    r: "List_copy_ctor T A h = Some r" "r \<noteq> Undefined"
      "\<forall>this h1. r = Returns this h1 \<longrightarrow>
          (\<exists>bs. well_formed h1 this bs xs \<and> ?S \<inter> set (m_end this # bs) = {}) \<and>
          (\<forall>y\<in>?S. cells h1 y = cells h y)"
    by blast
  have 1: "List_copy_ctor T A h \<noteq> None \<and> List_copy_ctor T A h \<noteq> Some Undefined"
    using r(1,2) by simp
  have 2: "List_copy_ctor T A h = Some (Returns B h1) \<longrightarrow>
            traverse h1 B = Some (Returns xs (End B)) \<and>
            run (apply_mutation T) cs (B, h1) \<noteq> Undefined \<and>
            (run (apply_mutation T) cs (B, h1) = Returns u (B1, h2) \<longrightarrow>
               traverse h A = Some (Returns xs (End A)) \<and> unat (Size A) = length xs \<and>
               well_formed h2 A as xs \<and>
               traverse h2 A = Some (Returns xs (End A)) \<and>
               traverse h2 B1 = Some (Returns ys (End B1)))"
  proof
    assume "List_copy_ctor T A h = Some (Returns B h1)"
    with r(1,3) obtain bs where wB: "well_formed h1 B bs xs"
      and d: "?S \<inter> set (m_end B # bs) = {}"
      and k: "\<forall>y\<in>?S. cells h1 y = cells h y"
      by auto
    have live: "\<forall>y\<in>?S. cells h1 y \<noteq> None" using ring_live [OF rA] k by metis
    have tB: "traverse h1 B = Some (Returns xs (End B))"
      using wB traverse_ring [of h1 B bs xs] by (simp add: well_formed_def)
    have dB: "run (apply_mutation T) cs (B, h1) \<noteq> Undefined"
      using run_mutations_defined [OF wB assms(2)] .
    have 3: "run (apply_mutation T) cs (B, h1) = Returns u (B1, h2) \<longrightarrow>
               traverse h A = Some (Returns xs (End A)) \<and> unat (Size A) = length xs \<and>
               well_formed h2 A as xs \<and>
               traverse h2 A = Some (Returns xs (End A)) \<and>
               traverse h2 B1 = Some (Returns ys (End B1))"
    proof
      assume rn: "run (apply_mutation T) cs (B, h1) = Returns u (B1, h2)"
      from run_mutations [OF wB d live assms(2) rn] obtain bs1 where
        wB1: "well_formed h2 B1 bs1 ys" and k2: "\<forall>y\<in>?S. cells h2 y = cells h1 y"
        by auto
      have "\<forall>y\<in>?S. cells h2 y = cells h y" using k k2 by simp
      from ring_frame [OF rA this] have rA2: "ring h2 (m_end A) as xs" .
      then have "well_formed h2 A as xs" using sz by (simp add: well_formed_def)
      moreover have "traverse h2 B1 = Some (Returns ys (End B1))"
        using wB1 traverse_ring [of h2 B1 bs1 ys] by (simp add: well_formed_def)
      ultimately show "traverse h A = Some (Returns xs (End A)) \<and> unat (Size A) = length xs \<and>
               well_formed h2 A as xs \<and>
               traverse h2 A = Some (Returns xs (End A)) \<and>
               traverse h2 B1 = Some (Returns ys (End B1))"
        using traverse_ring [OF rA] traverse_ring [OF rA2] sz len by (simp add: Size_def)
    qed
    show "traverse h1 B = Some (Returns xs (End B)) \<and>
            run (apply_mutation T) cs (B, h1) \<noteq> Undefined \<and>
            (run (apply_mutation T) cs (B, h1) = Returns u (B1, h2) \<longrightarrow>
               traverse h A = Some (Returns xs (End A)) \<and> unat (Size A) = length xs \<and>
               well_formed h2 A as xs \<and>
               traverse h2 A = Some (Returns xs (End A)) \<and>
               traverse h2 B1 = Some (Returns ys (End B1)))"
      using tB dB 3 by blast
  qed
  show ?thesis using 1 2 by blast
qed

theorem copy_is_independent_witness:
  "well_formed (snd example_A) (fst example_A) [2, 3] [1, 2] \<and>
   model_run model_mutation [Op (OpPushBack 3)] [1, 2] = Some [1, 2, 3 :: int] \<and>
   List_copy_ctor plain_T (fst example_A) (snd example_A) =
     Some (Returns (fst example_B) (snd example_B)) \<and>
   run (apply_mutation plain_T) [Op (OpPushBack 3)] example_B = Returns () example_B3 \<and>
   traverse (snd example_A) (fst example_A) = Some (Returns [1, 2] (End (fst example_A))) \<and>
   traverse (snd example_B3) (fst example_A) = Some (Returns [1, 2] (End (fst example_A))) \<and>
   traverse (snd example_B3) (fst example_B3) = Some (Returns [1, 2, 3] (End (fst example_B3)))"
proof -
  have m: "model_run model_mutation [Op (OpPushBack 3)] [1, 2] = Some [1, 2, 3 :: int]"
    by simp
  have r: "run (apply_mutation plain_T) [Op (OpPushBack 3)] (fst example_B, snd example_B) =
      Returns () (fst example_B3, snd example_B3)"
    using example_B3_built by simp
  from copy_is_independent [OF example_A_well_formed m, of plain_T "fst example_B" "snd example_B"
      "()" "fst example_B3" "snd example_B3"] example_B_built r
  show ?thesis using example_A_well_formed m example_B3_built by simp
qed


subsection \<open>What a move leaves behind\<close>

text \<open>
  C7: let \<open>other\<close> be a well-formed list holding \<open>xs\<close>. The move construction from it
  returns; the new list is well formed on the sentinel and the nodes of \<open>other\<close>, whose
  cells are untouched (no node is copied), and holds \<open>xs\<close> in the same order; and when
  the replacement sentinel could be allocated (\<open>m_end other1 \<noteq> 0\<close>), the source is empty:
  \<^verbatim>\<open>IsEmpty()\<close> holds, \<^verbatim>\<open>Size()\<close> is \<open>0\<close> and its traversal yields nothing. The same
  holds of the move assignment to a distinct well-formed list \<open>dst\<close> whose nodes are not
  those of \<open>other\<close>.
\<close>

theorem move_leaves_source_empty:
  assumes "well_formed h other as xs"
  shows "(\<exists>this other1 h1. List_move_ctor (other, h) = Returns this (other1, h1) \<and>
            well_formed h1 this as xs \<and> m_end this = m_end other \<and>
            traverse h1 this = Some (Returns xs (End this)) \<and>
            (\<forall>y\<in>set (m_end other # as). cells h1 y = cells h y) \<and>
            (m_end other1 \<noteq> 0 \<longrightarrow>
               IsEmpty other1 \<and> Size other1 = 0 \<and>
               traverse h1 other1 = Some (Returns [] (End other1)))) \<and>
         (well_formed h dst bs ys \<and> set (m_end dst # bs) \<inter> set (m_end other # as) = {} \<and>
          this_p \<noteq> other_p \<longrightarrow>
            (\<exists>dst1 other1 h1. move_assign this_p other_p ((dst, other), h) =
                 Returns () ((dst1, other1), h1) \<and>
               well_formed h1 dst1 as xs \<and> m_end dst1 = m_end other \<and>
               traverse h1 dst1 = Some (Returns xs (End dst1)) \<and>
               (\<forall>y\<in>set (m_end other # as). cells h1 y = cells h y) \<and>
               (m_end other1 \<noteq> 0 \<longrightarrow>
                  IsEmpty other1 \<and> Size other1 = 0 \<and>
                  traverse h1 other1 = Some (Returns [] (End other1)))))"
proof -
  from List_move_ctor_effect [OF assms] obtain this1 other1 h1 where
    c: "List_move_ctor (other, h) = Returns this1 (other1, h1)"
      "m_end this1 = m_end other" "well_formed h1 this1 as xs"
      "\<forall>y\<in>set (m_end other # as). cells h1 y = cells h y"
      "m_end other1 \<noteq> 0 \<longrightarrow> well_formed h1 other1 [] []"
    by blast
  have t: "traverse h1 this1 = Some (Returns xs (End this1))"
    using c(3) traverse_ring [of h1 this1 as xs] by (simp add: well_formed_def)
  have "m_end other1 \<noteq> 0 \<longrightarrow>
      IsEmpty other1 \<and> Size other1 = 0 \<and> traverse h1 other1 = Some (Returns [] (End other1))"
    using c(5) empty_list_facts [of h1 other1] by blast
  with c t have 1: "\<exists>this other1 h1. List_move_ctor (other, h) = Returns this (other1, h1) \<and>
            well_formed h1 this as xs \<and> m_end this = m_end other \<and>
            traverse h1 this = Some (Returns xs (End this)) \<and>
            (\<forall>y\<in>set (m_end other # as). cells h1 y = cells h y) \<and>
            (m_end other1 \<noteq> 0 \<longrightarrow>
               IsEmpty other1 \<and> Size other1 = 0 \<and>
               traverse h1 other1 = Some (Returns [] (End other1)))"
    by blast
  have 2: "well_formed h dst bs ys \<and> set (m_end dst # bs) \<inter> set (m_end other # as) = {} \<and>
          this_p \<noteq> other_p \<longrightarrow>
            (\<exists>dst1 other1 h1. move_assign this_p other_p ((dst, other), h) =
                 Returns () ((dst1, other1), h1) \<and>
               well_formed h1 dst1 as xs \<and> m_end dst1 = m_end other \<and>
               traverse h1 dst1 = Some (Returns xs (End dst1)) \<and>
               (\<forall>y\<in>set (m_end other # as). cells h1 y = cells h y) \<and>
               (m_end other1 \<noteq> 0 \<longrightarrow>
                  IsEmpty other1 \<and> Size other1 = 0 \<and>
                  traverse h1 other1 = Some (Returns [] (End other1))))"
  proof
    assume a: "well_formed h dst bs ys \<and>
      set (m_end dst # bs) \<inter> set (m_end other # as) = {} \<and> this_p \<noteq> other_p"
    then have wd: "well_formed h dst bs ys"
      and d: "set (m_end dst # bs) \<inter> set (m_end other # as) = {}" and ne: "this_p \<noteq> other_p"
      by blast+
    from move_assign_effect [OF wd assms d ne] obtain dst1 other2 h2 where
      m: "move_assign this_p other_p ((dst, other), h) = Returns () ((dst1, other2), h2)"
        "m_end dst1 = m_end other" "well_formed h2 dst1 as xs"
        "\<forall>y\<in>set (m_end other # as). cells h2 y = cells h y"
        "m_end other2 \<noteq> 0 \<longrightarrow> well_formed h2 other2 [] []"
      by blast
    have t2: "traverse h2 dst1 = Some (Returns xs (End dst1))"
      using m(3) traverse_ring [of h2 dst1 as xs] by (simp add: well_formed_def)
    have "m_end other2 \<noteq> 0 \<longrightarrow>
        IsEmpty other2 \<and> Size other2 = 0 \<and> traverse h2 other2 = Some (Returns [] (End other2))"
      using m(5) empty_list_facts [of h2 other2] by blast
    with m t2 show "\<exists>dst1 other1 h1. move_assign this_p other_p ((dst, other), h) =
                 Returns () ((dst1, other1), h1) \<and>
               well_formed h1 dst1 as xs \<and> m_end dst1 = m_end other \<and>
               traverse h1 dst1 = Some (Returns xs (End dst1)) \<and>
               (\<forall>y\<in>set (m_end other # as). cells h1 y = cells h y) \<and>
               (m_end other1 \<noteq> 0 \<longrightarrow>
                  IsEmpty other1 \<and> Size other1 = 0 \<and>
                  traverse h1 other1 = Some (Returns [] (End other1)))"
      by blast
  qed
  show ?thesis using 1 2 by blast
qed

theorem move_leaves_source_empty_witness:
  "well_formed (snd example_A) (fst example_A) [2, 3] [1, 2] \<and>
   (case List_move_ctor example_A of
      Returns this (other1, h1) \<Rightarrow>
        m_end other1 \<noteq> 0 \<and> IsEmpty other1 \<and> Size other1 = 0 \<and>
        traverse h1 other1 = Some (Returns [] (End other1)) \<and>
        traverse h1 this = Some (Returns [1, 2] (End this))
    | Throws sg s \<Rightarrow> False | Terminates \<Rightarrow> False | Undefined \<Rightarrow> False) \<and>
   well_formed (snd example_B) (fst example_B) [5, 6] [1, 2] \<and>
   set (m_end (fst example_B) # [5, 6]) \<inter> set (m_end (fst example_A) # [2, 3]) = {} \<and>
   (10 :: addr) \<noteq> 20 \<and>
   (case move_assign 10 20 ((fst example_B, fst example_A), snd example_B) of
      Returns u ((dst1, other1), h1) \<Rightarrow>
        m_end other1 \<noteq> 0 \<and> IsEmpty other1 \<and> Size other1 = 0 \<and>
        traverse h1 other1 = Some (Returns [] (End other1)) \<and>
        traverse h1 dst1 = Some (Returns [1, 2] (End dst1))
    | Throws sg s \<Rightarrow> False | Terminates \<Rightarrow> False | Undefined \<Rightarrow> False)"
  using move_leaves_source_empty [OF example_A_well_formed]
    move_leaves_source_empty [OF example_B_well_formed(2), of "fst example_B" "[5, 6]" "[1, 2]" 10 20]
    example_A_well_formed example_B_well_formed
  by (simp add: example_A_def example_B_def List_move_ctor_def new_ListNode_def self_link_def
      move_assign_def new_nothrow_ListNode_def IsEmpty_def Size_def PopBack_def
      traverse_def Begin_def End_def collect.simps iter_neq_def deref_def pre_increment_def
      store_simps)


subsection \<open>The ring invariant\<close>

text \<open>
  C3, as stated, fails: the move constructor is a public operation, and when the
  replacement sentinel cannot be allocated its handler leaves the source with a null
  sentinel. Moving the well-formed list \<open>[0, 1, 2]\<close> away with no storage left, the source
  has size \<open>0\<close> and no sentinel: nothing links to itself and there is no ring.
\<close>

theorem move_ctor_no_ring_counterexample:
  "well_formed (snd example_012) (fst example_012) [4, 2, 3] [0, 1, 2] \<and>
   (case List_move_ctor example_012 of
      Returns this (other1, h1) \<Rightarrow>
        Size other1 = 0 \<and> m_end other1 = 0 \<and> GetNext h1 (m_end other1) = None \<and>
        \<not> linked_back h1 (m_end other1) \<and> \<not> well_formed h1 other1 [] []
    | Throws sg s \<Rightarrow> False | Terminates \<Rightarrow> False | Undefined \<Rightarrow> False)"
  using example_012_well_formed
  by (simp add: example_012_def List_move_ctor_def new_ListNode_def operator_new_def Size_def
      linked_back_def well_formed_def ring_def GetNext_def GetPrev_def obind_def)

text \<open>
  C3, amended: a well-formed list is a ring in which both neighbours of every node point
  back at it, made of the sentinel and exactly \<^verbatim>\<open>Size()\<close> typed nodes, the sentinel of
  an empty list linked to itself in both directions. Every mutating public operation that
  is called on well-formed lists within its preconditions leaves them well formed,
  whether it returns or throws, and has no undefined behaviour:

  \<^item> \<^verbatim>\<open>List()\<close>, when it returns;
  \<^item> the four insertions, \<^verbatim>\<open>PopBack\<close> and \<^verbatim>\<open>PopFront\<close> on a non-empty list and
    \<^verbatim>\<open>Erase\<close> at an iterator reached from \<^verbatim>\<open>Begin()\<close>; an insertion that throws
    leaves the list as it was;
  \<^item> the copy constructor, which always ends by returning or by throwing
    \<^verbatim>\<open>std::bad_alloc\<close> or the element's exception: when it returns, the copy and its
    source are well formed; when it throws, the source is;
  \<^item> the copy assignment between two distinct lists on different nodes, which always
    ends in the same two ways: when it returns, both lists are well formed and hold
    the source's elements; when it throws, the source is well formed and unchanged and
    the destination is well formed and holds a proper prefix of the source's elements;
  \<^item> the move constructor and the move assignment, which always return: the destination
    is well formed, and so is the source when its replacement sentinel could be
    allocated;
  \<^item> the copy and the move assignment of a list onto itself, where nothing happens.
\<close>

theorem ring_invariant_preserved:
  "(well_formed h l as xs \<longrightarrow>
      (\<forall>n\<in>set (m_end l # as). linked_back h n) \<and> unat (Size l) = length as \<and>
      length xs = length as \<and>
      (as = [] \<longrightarrow> GetNext h (m_end l) = Some (m_end l) \<and> GetPrev h (m_end l) = Some (m_end l))) \<and>
   (List_ctor h = Returns l1 h1 \<longrightarrow> well_formed h1 l1 [] []) \<and>
   (well_formed h l as xs \<and> model_mutation c xs = Some ys \<longrightarrow>
      (apply_mutation T c (l, h) = Returns u (l2, h2) \<longrightarrow> (\<exists>as2. well_formed h2 l2 as2 ys)) \<and>
      (apply_mutation T c (l, h) = Throws sg (l2, h2) \<longrightarrow> well_formed h2 l2 as xs)) \<and>
   (well_formed h l as xs \<and> List_copy_ctor T l h = Some (Returns l3 h3) \<longrightarrow>
      (\<exists>as3. well_formed h3 l3 as3 xs) \<and> well_formed h3 l as xs) \<and>
   (well_formed h l as xs \<and> List_move_ctor (l, h) = Returns l4 (l5, h4) \<longrightarrow>
      well_formed h4 l4 as xs \<and> (m_end l5 \<noteq> 0 \<longrightarrow> well_formed h4 l5 [] [])) \<and>
   (well_formed h l as xs \<and> well_formed h d bs zs \<and>
    set (m_end d # bs) \<inter> set (m_end l # as) = {} \<and> p \<noteq> q \<longrightarrow>
      (copy_assign T p q ((d, l), h) = Some (Returns u6 ((d6, l6), h6)) \<longrightarrow>
         (\<exists>bs6. well_formed h6 d6 bs6 xs) \<and> well_formed h6 l6 as xs) \<and>
      (move_assign p q ((d, l), h) = Returns u7 ((d7, l7), h7) \<longrightarrow>
         well_formed h7 d7 as xs \<and> (m_end l7 \<noteq> 0 \<longrightarrow> well_formed h7 l7 [] []))) \<and>
   copy_assign T p p (dl, h) = Some (Returns () (dl, h)) \<and>
   move_assign p p (dl, h) = Returns () (dl, h) \<and>
   (well_formed h l as xs \<and> model_mutation c xs = Some ys \<longrightarrow>
      apply_mutation T c (l, h) \<noteq> Undefined) \<and>
   (well_formed h l as xs \<longrightarrow>
      List_copy_ctor T l h \<noteq> None \<and> List_copy_ctor T l h \<noteq> Some Undefined \<and>
      List_copy_ctor T l h \<noteq> Some Terminates \<and>
      (List_copy_ctor T l h = Some (Throws sg3 h8) \<longrightarrow>
         sg3 \<in> {bad_alloc, element_exception} \<and> well_formed h8 l as xs) \<and>
      (\<exists>l4 l5 h4. List_move_ctor (l, h) = Returns l4 (l5, h4))) \<and>
   (well_formed h l as xs \<and> well_formed h d bs zs \<and>
    set (m_end d # bs) \<inter> set (m_end l # as) = {} \<and> p \<noteq> q \<longrightarrow>
      copy_assign T p q ((d, l), h) \<noteq> None \<and>
      copy_assign T p q ((d, l), h) \<noteq> Some Undefined \<and>
      copy_assign T p q ((d, l), h) \<noteq> Some Terminates \<and>
      (copy_assign T p q ((d, l), h) = Some (Throws sg6 ((d8, l8), h9)) \<longrightarrow>
         sg6 \<in> {bad_alloc, element_exception} \<and>
         (\<exists>bs8 n. n < length xs \<and> well_formed h9 d8 bs8 (take n xs)) \<and>
         well_formed h9 l8 as xs) \<and>
      (\<exists>d7 l7 h7. move_assign p q ((d, l), h) = Returns () ((d7, l7), h7)))"
proof -
  have 1: "well_formed h l as xs \<longrightarrow>
      (\<forall>n\<in>set (m_end l # as). linked_back h n) \<and> unat (Size l) = length as \<and>
      length xs = length as \<and>
      (as = [] \<longrightarrow> GetNext h (m_end l) = Some (m_end l) \<and> GetPrev h (m_end l) = Some (m_end l))"
  proof
    assume w: "well_formed h l as xs"
    then have r: "ring h (m_end l) as xs" and sz: "unat (m_size l) = length as"
      by (simp_all add: well_formed_def)
    have "\<forall>n\<in>set (m_end l # as). linked_back h n" using ring_linked_back [OF r] by blast
    moreover have "as = [] \<longrightarrow>
        GetNext h (m_end l) = Some (m_end l) \<and> GetPrev h (m_end l) = Some (m_end l)"
      using r by (auto simp: ring_def)
    ultimately show "(\<forall>n\<in>set (m_end l # as). linked_back h n) \<and> unat (Size l) = length as \<and>
      length xs = length as \<and>
      (as = [] \<longrightarrow> GetNext h (m_end l) = Some (m_end l) \<and> GetPrev h (m_end l) = Some (m_end l))"
      using sz well_formed_length [OF w] by (simp add: Size_def)
  qed
  have 2: "List_ctor h = Returns l1 h1 \<longrightarrow> well_formed h1 l1 [] []"
    using List_ctor_Returns [of h l1 h1] by blast
  have 3: "well_formed h l as xs \<and> model_mutation c xs = Some ys \<longrightarrow>
      (apply_mutation T c (l, h) = Returns u (l2, h2) \<longrightarrow> (\<exists>as2. well_formed h2 l2 as2 ys)) \<and>
      (apply_mutation T c (l, h) = Throws sg (l2, h2) \<longrightarrow> well_formed h2 l2 as xs)"
    using apply_mutation_step [of h l as xs c ys T u "(l2, h2)"]
      apply_mutation_Throws [of h l as xs c ys T sg "(l2, h2)"]
    by auto
  have 4: "well_formed h l as xs \<and> List_copy_ctor T l h = Some (Returns l3 h3) \<longrightarrow>
      (\<exists>as3. well_formed h3 l3 as3 xs) \<and> well_formed h3 l as xs"
  proof
    assume a: "well_formed h l as xs \<and> List_copy_ctor T l h = Some (Returns l3 h3)"
    then have r: "ring h (m_end l) as xs" and sz: "unat (m_size l) = length as"
      by (simp_all add: well_formed_def)
    from a List_copy_ctor_ring [of h l as xs T] obtain as3 where
      w3: "well_formed h3 l3 as3 xs" and k: "\<forall>y\<in>set (m_end l # as). cells h3 y = cells h y"
      by auto
    from ring_frame [OF r k] have "well_formed h3 l as xs" using sz by (simp add: well_formed_def)
    then show "(\<exists>as3. well_formed h3 l3 as3 xs) \<and> well_formed h3 l as xs" using w3 by blast
  qed
  have 5: "well_formed h l as xs \<and> List_move_ctor (l, h) = Returns l4 (l5, h4) \<longrightarrow>
      well_formed h4 l4 as xs \<and> (m_end l5 \<noteq> 0 \<longrightarrow> well_formed h4 l5 [] [])"
    using List_move_ctor_effect [of h l as xs] by auto
  have 6: "well_formed h l as xs \<and> well_formed h d bs zs \<and>
    set (m_end d # bs) \<inter> set (m_end l # as) = {} \<and> p \<noteq> q \<longrightarrow>
      (copy_assign T p q ((d, l), h) = Some (Returns u6 ((d6, l6), h6)) \<longrightarrow>
         (\<exists>bs6. well_formed h6 d6 bs6 xs) \<and> well_formed h6 l6 as xs) \<and>
      (move_assign p q ((d, l), h) = Returns u7 ((d7, l7), h7) \<longrightarrow>
         well_formed h7 d7 as xs \<and> (m_end l7 \<noteq> 0 \<longrightarrow> well_formed h7 l7 [] []))"
  proof
    assume a: "well_formed h l as xs \<and> well_formed h d bs zs \<and>
      set (m_end d # bs) \<inter> set (m_end l # as) = {} \<and> p \<noteq> q"
    then have wl: "well_formed h l as xs" and wd: "well_formed h d bs zs"
      and dj: "set (m_end d # bs) \<inter> set (m_end l # as) = {}" and ne: "p \<noteq> q"
      by blast+
    have "copy_assign T p q ((d, l), h) = Some (Returns u6 ((d6, l6), h6)) \<longrightarrow>
         (\<exists>bs6. well_formed h6 d6 bs6 xs) \<and> well_formed h6 l6 as xs"
      using copy_assign_ring [OF wd wl dj ne, of T] by auto
    moreover have "move_assign p q ((d, l), h) = Returns u7 ((d7, l7), h7) \<longrightarrow>
         well_formed h7 d7 as xs \<and> (m_end l7 \<noteq> 0 \<longrightarrow> well_formed h7 l7 [] [])"
      using move_assign_effect [OF wd wl dj ne] by auto
    ultimately show "(copy_assign T p q ((d, l), h) = Some (Returns u6 ((d6, l6), h6)) \<longrightarrow>
         (\<exists>bs6. well_formed h6 d6 bs6 xs) \<and> well_formed h6 l6 as xs) \<and>
      (move_assign p q ((d, l), h) = Returns u7 ((d7, l7), h7) \<longrightarrow>
         well_formed h7 d7 as xs \<and> (m_end l7 \<noteq> 0 \<longrightarrow> well_formed h7 l7 [] []))"
      by blast
  qed
  have 7: "copy_assign T p p (dl, h) = Some (Returns () (dl, h))"
    by (cases dl) (simp add: copy_assign_def)
  have 8: "move_assign p p (dl, h) = Returns () (dl, h)"
    by (cases dl) (simp add: move_assign_def)
  have 9: "well_formed h l as xs \<and> model_mutation c xs = Some ys \<longrightarrow>
      apply_mutation T c (l, h) \<noteq> Undefined"
    using apply_mutation_defined [of h l as xs c ys T] by blast
  have 10: "well_formed h l as xs \<longrightarrow>
      List_copy_ctor T l h \<noteq> None \<and> List_copy_ctor T l h \<noteq> Some Undefined \<and>
      List_copy_ctor T l h \<noteq> Some Terminates \<and>
      (List_copy_ctor T l h = Some (Throws sg3 h8) \<longrightarrow>
         sg3 \<in> {bad_alloc, element_exception} \<and> well_formed h8 l as xs) \<and>
      (\<exists>l4 l5 h4. List_move_ctor (l, h) = Returns l4 (l5, h4))"
  proof
    assume w: "well_formed h l as xs"
    from List_copy_ctor_ring [OF w, of T] obtain r where
      r: "List_copy_ctor T l h = Some r" "r \<noteq> Undefined" by blast
    note t = List_copy_ctor_Throws [OF w r(1)]
    have a: "List_copy_ctor T l h \<noteq> None" "List_copy_ctor T l h \<noteq> Some Undefined"
      "List_copy_ctor T l h \<noteq> Some Terminates"
      using r t by simp_all
    have b: "List_copy_ctor T l h = Some (Throws sg3 h8) \<longrightarrow>
         sg3 \<in> {bad_alloc, element_exception} \<and> well_formed h8 l as xs"
      using r(1) t by auto
    have c: "\<exists>l4 l5 h4. List_move_ctor (l, h) = Returns l4 (l5, h4)"
      using List_move_ctor_effect [OF w] by blast
    show "List_copy_ctor T l h \<noteq> None \<and> List_copy_ctor T l h \<noteq> Some Undefined \<and>
      List_copy_ctor T l h \<noteq> Some Terminates \<and>
      (List_copy_ctor T l h = Some (Throws sg3 h8) \<longrightarrow>
         sg3 \<in> {bad_alloc, element_exception} \<and> well_formed h8 l as xs) \<and>
      (\<exists>l4 l5 h4. List_move_ctor (l, h) = Returns l4 (l5, h4))"
      using a b c by blast
  qed
  have 11: "well_formed h l as xs \<and> well_formed h d bs zs \<and>
    set (m_end d # bs) \<inter> set (m_end l # as) = {} \<and> p \<noteq> q \<longrightarrow>
      copy_assign T p q ((d, l), h) \<noteq> None \<and>
      copy_assign T p q ((d, l), h) \<noteq> Some Undefined \<and>
      copy_assign T p q ((d, l), h) \<noteq> Some Terminates \<and>
      (copy_assign T p q ((d, l), h) = Some (Throws sg6 ((d8, l8), h9)) \<longrightarrow>
         sg6 \<in> {bad_alloc, element_exception} \<and>
         (\<exists>bs8 n. n < length xs \<and> well_formed h9 d8 bs8 (take n xs)) \<and>
         well_formed h9 l8 as xs) \<and>
      (\<exists>d7 l7 h7. move_assign p q ((d, l), h) = Returns () ((d7, l7), h7))"
  proof
    assume a: "well_formed h l as xs \<and> well_formed h d bs zs \<and>
      set (m_end d # bs) \<inter> set (m_end l # as) = {} \<and> p \<noteq> q"
    then have wl: "well_formed h l as xs" and wd: "well_formed h d bs zs"
      and dj: "set (m_end d # bs) \<inter> set (m_end l # as) = {}" and ne: "p \<noteq> q"
      by blast+
    from copy_assign_ring [OF wd wl dj ne, of T] obtain r where
      r: "copy_assign T p q ((d, l), h) = Some r" "r \<noteq> Undefined" by blast
    note t = copy_assign_Throws [OF wd wl dj ne r(1)]
    have e: "copy_assign T p q ((d, l), h) \<noteq> None"
      "copy_assign T p q ((d, l), h) \<noteq> Some Undefined"
      "copy_assign T p q ((d, l), h) \<noteq> Some Terminates"
      using r t by simp_all
    have f: "copy_assign T p q ((d, l), h) = Some (Throws sg6 ((d8, l8), h9)) \<longrightarrow>
         sg6 \<in> {bad_alloc, element_exception} \<and>
         (\<exists>bs8 n. n < length xs \<and> well_formed h9 d8 bs8 (take n xs)) \<and>
         well_formed h9 l8 as xs"
    proof
      assume "copy_assign T p q ((d, l), h) = Some (Throws sg6 ((d8, l8), h9))"
      with r(1) have "r = Throws sg6 ((d8, l8), h9)" by simp
      with t have "sg6 \<in> {bad_alloc, element_exception} \<and> l8 = l \<and>
            (\<exists>bs1 n. n < length xs \<and> well_formed h9 d8 bs1 (take n xs)) \<and>
            well_formed h9 l as xs"
        by blast
      then show "sg6 \<in> {bad_alloc, element_exception} \<and>
         (\<exists>bs8 n. n < length xs \<and> well_formed h9 d8 bs8 (take n xs)) \<and>
         well_formed h9 l8 as xs"
        by blast
    qed
    have g: "\<exists>d7 l7 h7. move_assign p q ((d, l), h) = Returns () ((d7, l7), h7)"
      using move_assign_effect [OF wd wl dj ne] by blast
    show "copy_assign T p q ((d, l), h) \<noteq> None \<and>
      copy_assign T p q ((d, l), h) \<noteq> Some Undefined \<and>
      copy_assign T p q ((d, l), h) \<noteq> Some Terminates \<and>
      (copy_assign T p q ((d, l), h) = Some (Throws sg6 ((d8, l8), h9)) \<longrightarrow>
         sg6 \<in> {bad_alloc, element_exception} \<and>
         (\<exists>bs8 n. n < length xs \<and> well_formed h9 d8 bs8 (take n xs)) \<and>
         well_formed h9 l8 as xs) \<and>
      (\<exists>d7 l7 h7. move_assign p q ((d, l), h) = Returns () ((d7, l7), h7))"
      using e f g by blast
  qed
  show ?thesis
    by (intro conjI) (rule 1 2 3 4 5 6 7 8 9 10 11)+
qed


lemma example_B3_well_formed:
  "well_formed (snd example_B3) (fst example_B3) [5, 6, 7] [1, 2, 3]"
  by (simp add: example_B3_def well_formed_def ring_def GetNext_def GetPrev_def GetValue_def)

lemma example_012_full:
  "apply_mutation plain_T (Op (OpPushBack 7)) example_012 = Throws bad_alloc example_012"
  by (simp add: example_012_def PushBack_def push_def new_TNode_def operator_new_def delete_def)

lemma example_A_moved:
  "case List_move_ctor example_A of
     Returns l4 (l5, h4) \<Rightarrow>
       m_end l5 \<noteq> 0 \<and> well_formed h4 l4 [2, 3] [1, 2] \<and> well_formed h4 l5 [] []
   | Throws sg s \<Rightarrow> False | Terminates \<Rightarrow> False | Undefined \<Rightarrow> False"
  by (simp add: example_A_def List_move_ctor_def new_ListNode_def self_link_def
      well_formed_def ring_def store_simps)

lemma example_B_assigned:
  "case copy_assign plain_T 10 20
          ((fst example_B, fst example_A), (snd example_B)\<lparr>offers := [7, 8]\<rparr>) of
     Some (Returns u ((d6, l6), h6)) \<Rightarrow>
       well_formed h6 l6 [2, 3] [1, 2] \<and> well_formed h6 d6 [7, 8] [1, 2]
   | Some (Throws sg s) \<Rightarrow> False | Some Terminates \<Rightarrow> False | Some Undefined \<Rightarrow> False
   | None \<Rightarrow> False"
  by (simp add: example_A_def example_B_def plain_T_def copy_assign_def IsEmpty_def PopBack_def
      Begin_def End_def assign_loop.simps iter_neq_def deref_def pre_increment_def
      PushBack_def push_def new_TNode_def well_formed_def ring_def store_simps)

lemma example_B_move_assigned:
  "case move_assign 10 20 ((fst example_B, fst example_A), snd example_B) of
     Returns u ((d7, l7), h7) \<Rightarrow>
       m_end l7 \<noteq> 0 \<and> well_formed h7 d7 [2, 3] [1, 2] \<and> well_formed h7 l7 [] []
   | Throws sg s \<Rightarrow> False | Terminates \<Rightarrow> False | Undefined \<Rightarrow> False"
  by (simp add: example_A_def example_B_def move_assign_def IsEmpty_def PopBack_def
      new_nothrow_ListNode_def self_link_def well_formed_def ring_def store_simps)

lemma example_A_copy_thrown:
  "case List_copy_ctor plain_T (fst example_A) ((snd example_A)\<lparr>offers := [4, 5]\<rparr>) of
     Some (Throws sg h8) \<Rightarrow> sg = bad_alloc \<and> well_formed h8 (fst example_A) [2, 3] [1, 2]
   | Some (Returns l3 h3) \<Rightarrow> False | Some Terminates \<Rightarrow> False | Some Undefined \<Rightarrow> False
   | None \<Rightarrow> False"
  by (simp add: example_A_def plain_T_def List_copy_ctor_def List_ctor_def
      new_ListNode_def self_link_def copy_loop.simps PushBack_def push_def new_TNode_def
      well_formed_def ring_def store_simps)

lemma example_A_copy_element_thrown:
  "case List_copy_ctor \<lparr>copy_throws = (\<lambda>x. x = 2), move_throws = (\<lambda>x. False)\<rparr>
          (fst example_A) (snd example_A) of
     Some (Throws sg h8) \<Rightarrow>
       sg = element_exception \<and> well_formed h8 (fst example_A) [2, 3] [1, 2]
   | Some (Returns l3 h3) \<Rightarrow> False | Some Terminates \<Rightarrow> False | Some Undefined \<Rightarrow> False
   | None \<Rightarrow> False"
  by (simp add: example_A_def List_copy_ctor_def List_ctor_def
      new_ListNode_def self_link_def copy_loop.simps PushBack_def push_def new_TNode_def
      well_formed_def ring_def store_simps)

lemma example_B_assign_thrown:
  "case copy_assign plain_T 10 20 ((fst example_B, fst example_A), snd example_B) of
     Some (Throws sg ((d8, l8), h9)) \<Rightarrow>
       sg = bad_alloc \<and> well_formed h9 d8 [7] (take 1 [1, 2]) \<and>
       well_formed h9 l8 [2, 3] [1, 2]
   | Some (Returns u s) \<Rightarrow> False | Some Terminates \<Rightarrow> False | Some Undefined \<Rightarrow> False
   | None \<Rightarrow> False"
  by (simp add: example_A_def example_B_def plain_T_def copy_assign_def IsEmpty_def PopBack_def
      Begin_def End_def assign_loop.simps iter_neq_def deref_def pre_increment_def
      PushBack_def push_def new_TNode_def well_formed_def ring_def store_simps)

theorem ring_invariant_preserved_witness:
  "well_formed (snd example_012) (fst example_012) [4, 2, 3] [0, 1, 2] \<and>
   linked_back (snd example_012) 1 \<and> linked_back (snd example_012) 4 \<and>
   linked_back (snd example_012) 2 \<and> linked_back (snd example_012) 3 \<and>
   unat (Size (fst example_012)) = 3 \<and>
   List_ctor (empty_store [1, 2, 3, 4]) = Returns (fst example_empty) (snd example_empty) \<and>
   well_formed (snd example_empty) (fst example_empty) [] [] \<and>
   well_formed (snd example_B) (fst example_B) [5, 6] [1, 2] \<and>
   model_mutation (Op (OpPushBack 3)) [1, 2] = Some [1, 2, 3 :: int] \<and>
   apply_mutation plain_T (Op (OpPushBack 3)) example_B = Returns () example_B3 \<and>
   well_formed (snd example_B3) (fst example_B3) [5, 6, 7] [1, 2, 3] \<and>
   apply_mutation plain_T (Op (OpPushBack 7)) example_012 = Throws bad_alloc example_012 \<and>
   well_formed (snd example_A) (fst example_A) [2, 3] [1, 2] \<and>
   List_copy_ctor plain_T (fst example_A) (snd example_A) =
     Some (Returns (fst example_B) (snd example_B)) \<and>
   well_formed (snd example_B) (fst example_A) [2, 3] [1, 2] \<and>
   (case List_move_ctor example_A of
      Returns l4 (l5, h4) \<Rightarrow>
        m_end l5 \<noteq> 0 \<and> well_formed h4 l4 [2, 3] [1, 2] \<and> well_formed h4 l5 [] []
    | Throws sg s \<Rightarrow> False | Terminates \<Rightarrow> False | Undefined \<Rightarrow> False) \<and>
   set (m_end (fst example_B) # [5, 6]) \<inter> set (m_end (fst example_A) # [2, 3]) = {} \<and>
   (10 :: addr) \<noteq> 20 \<and>
   (case copy_assign plain_T 10 20
           ((fst example_B, fst example_A), (snd example_B)\<lparr>offers := [7, 8]\<rparr>) of
      Some (Returns u ((d6, l6), h6)) \<Rightarrow>
        well_formed h6 l6 [2, 3] [1, 2] \<and> well_formed h6 d6 [7, 8] [1, 2]
    | Some (Throws sg s) \<Rightarrow> False | Some Terminates \<Rightarrow> False | Some Undefined \<Rightarrow> False
    | None \<Rightarrow> False) \<and>
   (case move_assign 10 20 ((fst example_B, fst example_A), snd example_B) of
      Returns u ((d7, l7), h7) \<Rightarrow>
        m_end l7 \<noteq> 0 \<and> well_formed h7 d7 [2, 3] [1, 2] \<and> well_formed h7 l7 [] []
    | Throws sg s \<Rightarrow> False | Terminates \<Rightarrow> False | Undefined \<Rightarrow> False) \<and>
   (case List_copy_ctor plain_T (fst example_A) ((snd example_A)\<lparr>offers := [4, 5]\<rparr>) of
      Some (Throws sg h8) \<Rightarrow> sg = bad_alloc \<and> well_formed h8 (fst example_A) [2, 3] [1, 2]
    | Some (Returns l3 h3) \<Rightarrow> False | Some Terminates \<Rightarrow> False | Some Undefined \<Rightarrow> False
    | None \<Rightarrow> False) \<and>
   (case List_copy_ctor \<lparr>copy_throws = (\<lambda>x. x = 2), move_throws = (\<lambda>x. False)\<rparr>
           (fst example_A) (snd example_A) of
      Some (Throws sg h8) \<Rightarrow>
        sg = element_exception \<and> well_formed h8 (fst example_A) [2, 3] [1, 2]
    | Some (Returns l3 h3) \<Rightarrow> False | Some Terminates \<Rightarrow> False | Some Undefined \<Rightarrow> False
    | None \<Rightarrow> False) \<and>
   (case copy_assign plain_T 10 20 ((fst example_B, fst example_A), snd example_B) of
      Some (Throws sg ((d8, l8), h9)) \<Rightarrow>
        sg = bad_alloc \<and> well_formed h9 d8 [7] (take 1 [1, 2]) \<and>
        well_formed h9 l8 [2, 3] [1, 2]
    | Some (Returns u s) \<Rightarrow> False | Some Terminates \<Rightarrow> False | Some Undefined \<Rightarrow> False
    | None \<Rightarrow> False)"
proof -
  have c1: "well_formed (snd example_012) (fst example_012) [4, 2, 3] [0, 1, 2]"
    by (rule example_012_well_formed)
  have "well_formed (snd example_012) (fst example_012) [4, 2, 3] [0, 1, 2] \<longrightarrow>
      (\<forall>n\<in>set (m_end (fst example_012) # [4, 2, 3]). linked_back (snd example_012) n) \<and>
      unat (Size (fst example_012)) = length [4, 2, 3 :: addr] \<and>
      length [0, 1, 2 :: int] = length [4, 2, 3 :: addr] \<and>
      ([4, 2, 3 :: addr] = [] \<longrightarrow>
         GetNext (snd example_012) (m_end (fst example_012)) = Some (m_end (fst example_012)) \<and>
         GetPrev (snd example_012) (m_end (fst example_012)) = Some (m_end (fst example_012)))"
    by (rule ring_invariant_preserved [where h = "snd example_012" and l = "fst example_012"
        and as = "[4, 2, 3]" and xs = "[0, 1, 2]", THEN conjunct1])
  with c1 have "(\<forall>n\<in>set (m_end (fst example_012) # [4, 2, 3]). linked_back (snd example_012) n) \<and>
      unat (Size (fst example_012)) = length [4, 2, 3 :: addr]"
    by blast
  moreover have "m_end (fst example_012) = 1" by (simp add: example_012_def)
  ultimately have c2: "linked_back (snd example_012) 1" "linked_back (snd example_012) 4"
    "linked_back (snd example_012) 2" "linked_back (snd example_012) 3"
    "unat (Size (fst example_012)) = 3"
    by simp_all
  have c3: "List_ctor (empty_store [1, 2, 3, 4]) = Returns (fst example_empty) (snd example_empty)"
    by (rule example_empty_built)
  have c4: "well_formed (snd example_empty) (fst example_empty) [] []"
    by (rule example_empty_well_formed)
  have c5: "well_formed (snd example_B) (fst example_B) [5, 6] [1, 2]"
    by (rule example_B_well_formed(1))
  have c6: "model_mutation (Op (OpPushBack 3)) [1, 2] = Some [1, 2, 3 :: int]" by simp
  have c7: "apply_mutation plain_T (Op (OpPushBack 3)) example_B = Returns () example_B3"
    using example_B3_built by (simp split: outcome.splits)
  have c8: "well_formed (snd example_B3) (fst example_B3) [5, 6, 7] [1, 2, 3]"
    by (rule example_B3_well_formed)
  have c9: "apply_mutation plain_T (Op (OpPushBack 7)) example_012 = Throws bad_alloc example_012"
    by (rule example_012_full)
  have c10: "well_formed (snd example_A) (fst example_A) [2, 3] [1, 2]"
    by (rule example_A_well_formed)
  have c11: "List_copy_ctor plain_T (fst example_A) (snd example_A) =
     Some (Returns (fst example_B) (snd example_B))"
    by (rule example_B_built)
  have c12: "well_formed (snd example_B) (fst example_A) [2, 3] [1, 2]"
    by (rule example_B_well_formed(2))
  have c13: "set (m_end (fst example_B) # [5, 6]) \<inter> set (m_end (fst example_A) # [2, 3]) = {}"
    by (simp add: example_A_def example_B_def)
  have c14: "(10 :: addr) \<noteq> 20" by simp
  show ?thesis
    by (intro conjI) (rule c1 c2 c3 c4 c5 c6 c7 c8 c9 c10 c11 c12 c13 c14
        example_A_moved example_B_assigned example_B_move_assigned
        example_A_copy_thrown example_A_copy_element_thrown example_B_assign_thrown)+
qed


end
